theory Spec2Isabelle
  imports
    Complex_Main
    "HOL-Library.Signed_Division"
    "HOL-Library.Log_Nat"
    "HOL-Library.Mapping"
begin

section \<open>Machine arithmetic of the Go source\<close>

subsection \<open>int32\<close>

text \<open>
  The pool's counters and configuration fields are Go \<^verbatim>\<open>int32\<close>. They are modelled as
  \<^typ>\<open>int\<close>; every arithmetic result is passed through \<open>i32\<close>, the two's complement
  wrap-around to 32 bits. Go's integer division truncates towards zero, which is
  \<open>sdiv\<close> on \<^typ>\<open>int\<close>.
\<close>

definition i32 :: "int \<Rightarrow> int" where
  "i32 x = (x + 2147483648) mod 4294967296 - 2147483648"

definition is_int32 :: "int \<Rightarrow> bool" where
  "is_int32 x \<longleftrightarrow> - 2147483648 \<le> x \<and> x \<le> 2147483647"

subsection \<open>float64\<close>

text \<open>
  A finite \<^verbatim>\<open>float64\<close> is modelled by the rational number it denotes (the sign of a
  zero is dropped: it influences no result below). An operation that IEEE 754 answers
  with an infinity or a NaN yields \<open>None\<close>.

  \<open>f64_round\<close> is the rounding of binary64: to the nearest representable number, ties
  to the even significand, with 53 significant bits, the smallest exponent of the
  subnormal range and overflow beyond the largest finite number.
\<close>

definition rne :: "rat \<Rightarrow> int" where
  "rne q =
     (let f = \<lfloor>q\<rfloor>; r = q - of_int f
      in if r < 1 / 2 then f
         else if 1 / 2 < r then f + 1
         else if even f then f else f + 1)"

definition ilog2 :: "rat \<Rightarrow> int" where
  "ilog2 q =
     (case quotient_of q of
        (a, b) \<Rightarrow>
          let e0 = bitlen a - bitlen b
          in if 2 powi e0 \<le> q then e0 else e0 - 1)"

definition f64_round :: "rat \<Rightarrow> rat option" where
  "f64_round q =
     (if q = 0 then Some 0
      else
        let u = 2 powi (max (ilog2 \<bar>q\<bar> - 52) (- 1074));
            r = of_int (rne (\<bar>q\<bar> / u)) * u
        in if 2 ^ 1024 \<le> r then None else Some (sgn q * r))"

text \<open>\<^verbatim>\<open>float64(x)\<close> of an \<^verbatim>\<open>int32\<close> is exact: every 32-bit integer has fewer than 53 bits.\<close>

definition f64_of_int32 :: "int \<Rightarrow> rat" where
  "f64_of_int32 n = of_int n"

definition f64_div :: "rat \<Rightarrow> rat \<Rightarrow> rat option" where
  "f64_div a b = (if b = 0 then None else f64_round (a / b))"

definition f64_mul :: "rat \<Rightarrow> rat \<Rightarrow> rat option" where
  "f64_mul a b = f64_round (a * b)"

text \<open>
  \<^verbatim>\<open>int32(f)\<close> discards the fraction. When the truncated value does not fit, the
  conversion still succeeds and the Go specification leaves its result to the
  implementation. That result is the argument \<open>u\<close>: whatever 32-bit value the platform
  yields.
\<close>

definition int32_of_f64 :: "int \<Rightarrow> rat \<Rightarrow> int" where
  "int32_of_f64 u f =
     (let t = (if 0 \<le> f then \<lfloor>f\<rfloor> else \<lceil>f\<rceil>)
      in if is_int32 t then t else i32 u)"

section \<open>The auto-scaling worker pool (pool/autoScaleWorkerPool.go)\<close>

subsection \<open>Data\<close>

definition DefaultMinWorkers :: int where
  "DefaultMinWorkers = 1"

definition DefaultMinQueueSize :: int where
  "DefaultMinQueueSize = 1"

text \<open>\<^verbatim>\<open>5 * time.Second\<close>; a \<^verbatim>\<open>time.Duration\<close> counts nanoseconds.\<close>

definition DefaultIdleTimeout :: int where
  "DefaultIdleTimeout = 5 * 1000000000"

text \<open>A buffered channel: its buffer in arrival order, its capacity, and whether it is closed.\<close>

record 'a chan =
  chan_buf :: "'a list"
  chan_cap :: nat
  chan_closed :: bool

text \<open>
  The struct \<^verbatim>\<open>AutoScaleWorkerPool[T]\<close>. \<open>Ctx_done\<close> is whether \<^verbatim>\<open>Ctx.Done()\<close> is closed
  (\<^verbatim>\<open>CancelFunc\<close> sets it), \<open>WG\<close> is the counter of the wait group. \<^verbatim>\<open>WorkFunc\<close> is an
  arbitrary function of the caller; the model records its invocations in a log.
\<close>

record 'a AutoScaleWorkerPool =
  Ctx_done :: bool
  MinWorkers :: int
  MaxWorkers :: int
  CurrentWorkers :: int
  QueueSize :: int
  ScaleThreshold :: int
  IdleTimeout :: int
  InputChan :: "'a chan"
  WG :: int
  Queue :: "'a chan"

subsection \<open>The scaling decision of one tick (the ticker case in Start)\<close>

definition thresholdCount :: "'a AutoScaleWorkerPool \<Rightarrow> int" where
  "thresholdCount p = i32 (QueueSize p * ScaleThreshold p) sdiv 100"

definition excess :: "'a AutoScaleWorkerPool \<Rightarrow> int \<Rightarrow> int" where
  "excess p qLen = i32 (qLen - thresholdCount p)"

definition maxExcess :: "'a AutoScaleWorkerPool \<Rightarrow> int" where
  "maxExcess p = i32 (QueueSize p - thresholdCount p)"

definition ratio :: "'a AutoScaleWorkerPool \<Rightarrow> int \<Rightarrow> rat option" where
  "ratio p qLen =
     (if maxExcess p = 0 then Some 1
      else f64_div (f64_of_int32 (excess p qLen)) (f64_of_int32 (maxExcess p)))"

text \<open>
  \<open>u\<close> is the implementation's result for a conversion that does not fit (as it is for
  the conversion of an infinity or a NaN).
\<close>

definition potentialAdditional :: "'a AutoScaleWorkerPool \<Rightarrow> int \<Rightarrow> int \<Rightarrow> int \<Rightarrow> int" where
  "potentialAdditional p qLen currentWorkers u =
     (case ratio p qLen of
        None \<Rightarrow> i32 u
      | Some r \<Rightarrow>
          (case f64_mul r (f64_of_int32 (i32 (MaxWorkers p - currentWorkers))) of
             None \<Rightarrow> i32 u
           | Some f \<Rightarrow> int32_of_f64 u f))"

definition additional :: "'a AutoScaleWorkerPool \<Rightarrow> int \<Rightarrow> int \<Rightarrow> int \<Rightarrow> int" where
  "additional p qLen currentWorkers u =
     (let a = max 1 (potentialAdditional p qLen currentWorkers u)
      in if i32 (currentWorkers + a) > MaxWorkers p
         then i32 (MaxWorkers p - currentWorkers)
         else a)"

text \<open>The guard of the tick: only under it are workers spawned and the counter changed.\<close>

definition scale_up :: "'a AutoScaleWorkerPool \<Rightarrow> int \<Rightarrow> int \<Rightarrow> bool" where
  "scale_up p qLen currentWorkers \<longleftrightarrow>
     qLen \<ge> thresholdCount p \<and> currentWorkers < MaxWorkers p"

text \<open>The number of workers one tick adds: none when the guard fails.\<close>

definition tick_added :: "'a AutoScaleWorkerPool \<Rightarrow> int \<Rightarrow> int \<Rightarrow> int \<Rightarrow> int" where
  "tick_added p qLen currentWorkers u =
     (if scale_up p qLen currentWorkers then additional p qLen currentWorkers u else 0)"

text \<open>
  The configurations the constructor produces from 32-bit arguments whose product
  \<^verbatim>\<open>QueueSize * ScaleThreshold\<close> does not overflow \<^verbatim>\<open>int32\<close>.
\<close>

definition config_ok :: "'a AutoScaleWorkerPool \<Rightarrow> bool" where
  "config_ok p \<longleftrightarrow>
     1 \<le> MinWorkers p \<and> 1 \<le> MaxWorkers p \<and> MaxWorkers p \<le> 2147483647 \<and>
     1 \<le> QueueSize p \<and> 1 \<le> ScaleThreshold p \<and> ScaleThreshold p \<le> 100 \<and>
     QueueSize p * ScaleThreshold p \<le> 2147483647"

text \<open>
  The scaling rule as the specification words it, in exact arithmetic: the ratio is a
  fraction, the floor is that of the exact product.
\<close>

definition spec_thresholdCount :: "'a AutoScaleWorkerPool \<Rightarrow> int" where
  "spec_thresholdCount p = QueueSize p * ScaleThreshold p div 100"

definition spec_ratio :: "'a AutoScaleWorkerPool \<Rightarrow> int \<Rightarrow> rat" where
  "spec_ratio p qLen =
     (if QueueSize p = spec_thresholdCount p then 1
      else of_int (qLen - spec_thresholdCount p) / of_int (QueueSize p - spec_thresholdCount p))"

definition spec_added :: "'a AutoScaleWorkerPool \<Rightarrow> int \<Rightarrow> int \<Rightarrow> int" where
  "spec_added p qLen cur =
     (if qLen < spec_thresholdCount p \<or> MaxWorkers p \<le> cur then 0
      else min (MaxWorkers p - cur)
             (max 1 \<lfloor>spec_ratio p qLen * of_int (MaxWorkers p - cur)\<rfloor>))"

subsection \<open>Goroutines\<close>

text \<open>
  The pool runs one goroutine per worker (\<^verbatim>\<open>worker\<close>), the goroutine of \<^verbatim>\<open>Start\<close>
  (it runs \<^verbatim>\<open>readChan\<close>, closes the queue and waits for the wait group) and the
  anonymous ticker goroutine that \<^verbatim>\<open>Start\<close> launches. Each is a small state machine
  whose steps are the channel operations, atomic operations and calls of the source;
  a run of the pool is any interleaving of these steps.
\<close>

text \<open>Why a worker left its loop: the three \<^verbatim>\<open>return\<close> statements of \<^verbatim>\<open>worker\<close>.\<close>

datatype exit_reason = QueueClosed | IdleExit | Cancelled

text \<open>
  Where a worker stands. \<open>Spawned\<close>: created by \<^verbatim>\<open>go pool.worker()\<close>, not yet run.
  \<open>Waiting t\<close>: in the select, with its timer due at the instant \<open>t\<close> (once the clock
  has reached \<open>t\<close>, \<^verbatim>\<open>timer.C\<close> can be received from). \<open>Received payload\<close>: the select
  has received \<open>payload\<close> from the queue, the timer is not yet stopped and reset.
  \<open>Armed t payload\<close>: the timer is reset and due at \<open>t\<close>, the work function not yet
  called. \<open>Executing t payload\<close>: inside \<^verbatim>\<open>pool.WorkFunc(pool.Ctx, payload)\<close>, the timer
  still due at \<open>t\<close>. \<open>Returning r\<close>: left the loop, the deferred function not yet run.
  \<open>Exited r\<close>: the deferred function has run.
\<close>

datatype 'a worker_state =
    Spawned
  | Waiting int
  | Received 'a
  | Armed int 'a
  | Executing int 'a
  | Returning exit_reason
  | Exited exit_reason

text \<open>Why \<^verbatim>\<open>readChan\<close> returned: its three \<^verbatim>\<open>return\<close> statements.\<close>

datatype return_reason = InputExhausted | OuterCancelled | InnerCancelled

text \<open>
  Where the goroutine of \<^verbatim>\<open>Start\<close> stands. \<open>InReadChan\<close>: at the outer select of
  \<^verbatim>\<open>readChan\<close>. \<open>Enqueueing data\<close>: at the inner select, holding \<open>data\<close>.
  \<open>AfterReadChan r\<close>: \<^verbatim>\<open>readChan\<close> has returned, \<^verbatim>\<open>close(pool.Queue)\<close> is next. \<open>InWait\<close>: in
  \<^verbatim>\<open>pool.WG.Wait()\<close>. \<open>StartDone\<close>: returned.
\<close>

datatype 'a bridge_state =
    InReadChan
  | Enqueueing 'a
  | AfterReadChan return_reason
  | InWait
  | StartDone

text \<open>
  Where the ticker goroutine stands. \<open>AwaitTick\<close>: at its select. \<open>HaveLen qLen\<close>: inside
  the ticker case, \<open>qLen\<close> read. \<open>Spawning additional n\<close>: the guard passed and
  \<open>additional\<close> computed, \<open>n\<close> iterations of the spawn loop left; at \<open>n = 0\<close> the atomic
  addition is next. \<open>ScalerDone\<close>: returned on cancellation.
\<close>

datatype scaler_state =
    AwaitTick
  | HaveLen int
  | Spawning int nat
  | ScalerDone

text \<open>
  The whole pool: the struct, the goroutines, a clock in nanoseconds, and the log of the
  payloads on which the work function has been called, in the order of the calls (a
  payload enters the log when its worker calls the work function, not when it is
  received from the queue).
\<close>

record 'a system =
  pool :: "'a AutoScaleWorkerPool"
  workers :: "'a worker_state list"
  bridge :: "'a bridge_state"
  scaler :: scaler_state
  clock :: int
  invoked :: "'a list"

text \<open>
  The steps. Of a worker: it creates its timer; its select receives a payload, finds the
  queue closed and drained, receives from the timer or finds the context done; after a
  payload it stops and resets its timer, then calls the work function; the work
  function returns; the deferred function runs. Of \<^verbatim>\<open>readChan\<close>: the outer select receives
  an item, finds the source closed and drained or finds the context done; the inner
  select sends the item to the queue or finds the context done. Of \<^verbatim>\<open>Start\<close>: the four
  stages of a tick, the exit of the ticker goroutine, the close of the queue, the return
  of \<^verbatim>\<open>WG.Wait\<close>. Of the environment: a call of \<^verbatim>\<open>Stop\<close>, and the passing of time.
\<close>

datatype worker_event =
    Begins
  | RecvPayload
  | RecvClosed
  | ResetsTimer
  | CallsWorkFunc
  | WorkFuncReturns
  | TimerFires
  | SeesCtxDone
  | RunsDeferred

datatype readChan_event =
    RecvData
  | InputClosed
  | OuterCtxDone
  | SendQueue
  | InnerCtxDone

datatype Start_event =
    TickReadLen
  | TickLoadWorkers int
  | TickGo
  | TickAddWorkers
  | TickerCtxDone
  | CloseQueue
  | WaitReturns

datatype action =
    StopCalled
  | TimePasses int
  | Worker nat worker_event
  | ReadChan readChan_event
  | StartStep Start_event

subsection \<open>NewAutoScaleWorkerPool\<close>

text \<open>
  The first argument is whether the parent context is already cancelled. The work
  function is not an argument: its calls are logged in \<open>invoked\<close>.
\<close>

definition NewAutoScaleWorkerPool ::
  "bool \<Rightarrow> int \<Rightarrow> int \<Rightarrow> int \<Rightarrow> int \<Rightarrow> int \<Rightarrow> 'a chan \<Rightarrow> 'a system" where
  "NewAutoScaleWorkerPool ctx minWorkers maxWorkers queueSize scaleThreshold idleTimeout input =
     (let p = \<lparr> Ctx_done = ctx,
                MinWorkers = max DefaultMinWorkers minWorkers,
                MaxWorkers = max DefaultMinWorkers maxWorkers,
                CurrentWorkers = 0,
                QueueSize = max DefaultMinQueueSize queueSize,
                ScaleThreshold = min (max scaleThreshold 1) 100,
                IdleTimeout = max DefaultIdleTimeout idleTimeout,
                InputChan = input,
                WG = 0,
                Queue = \<lparr> chan_buf = [], chan_cap = 0, chan_closed = False \<rparr> \<rparr>;
          p = p \<lparr> CurrentWorkers := MinWorkers p \<rparr>;
          p = p \<lparr> Queue := \<lparr> chan_buf = [], chan_cap = nat (QueueSize p), chan_closed = False \<rparr> \<rparr>;
          p = p \<lparr> WG := WG p + CurrentWorkers p \<rparr>
      in \<lparr> pool = p,
           workers = replicate (nat (CurrentWorkers p)) Spawned,
           bridge = InReadChan,
           scaler = AwaitTick,
           clock = 0,
           invoked = [] \<rparr>)"

subsection \<open>Stop\<close>

definition Stop :: "'a system \<Rightarrow> 'a system" where
  "Stop s = s \<lparr> pool := (pool s) \<lparr> Ctx_done := True \<rparr> \<rparr>"

subsection \<open>worker\<close>

definition set_worker :: "'a system \<Rightarrow> nat \<Rightarrow> 'a worker_state \<Rightarrow> 'a system" where
  "set_worker s i w = s \<lparr> workers := (workers s)[i := w] \<rparr>"

text \<open>
  One step of worker \<open>i\<close>; \<open>None\<close> where the worker cannot take that step in that state
  (the same holds for the steps of the other goroutines). \<open>Begins\<close> creates the timer.
  In the select, a payload is received when the queue holds one (\<open>RecvPayload\<close>); the
  timer is then stopped and reset (\<open>ResetsTimer\<close>) and the work function is called
  (\<open>CallsWorkFunc\<close>, which enters the payload in the log), as three steps in this order.
  \<open>RunsDeferred\<close> is the deferred function: the atomic decrement and \<^verbatim>\<open>WG.Done\<close>.
\<close>

fun worker :: "'a system \<Rightarrow> nat \<Rightarrow> worker_event \<Rightarrow> 'a system option" where
  "worker s i Begins =
     (if i < length (workers s) \<and> workers s ! i = Spawned
      then Some (set_worker s i (Waiting (clock s + IdleTimeout (pool s))))
      else None)"
| "worker s i RecvPayload =
     (if i < length (workers s) then
        (case (workers s ! i, chan_buf (Queue (pool s))) of
           (Waiting t, payload # rest) \<Rightarrow>
             Some ((set_worker s i (Received payload))
                     \<lparr> pool := (pool s) \<lparr> Queue := (Queue (pool s)) \<lparr> chan_buf := rest \<rparr> \<rparr> \<rparr>)
         | _ \<Rightarrow> None)
      else None)"
| "worker s i RecvClosed =
     (if i < length (workers s) then
        (case workers s ! i of
           Waiting t \<Rightarrow>
             if chan_buf (Queue (pool s)) = [] \<and> chan_closed (Queue (pool s))
             then Some (set_worker s i (Returning QueueClosed))
             else None
         | _ \<Rightarrow> None)
      else None)"
| "worker s i ResetsTimer =
     (if i < length (workers s) then
        (case workers s ! i of
           Received payload \<Rightarrow>
             Some (set_worker s i (Armed (clock s + IdleTimeout (pool s)) payload))
         | _ \<Rightarrow> None)
      else None)"
| "worker s i CallsWorkFunc =
     (if i < length (workers s) then
        (case workers s ! i of
           Armed t payload \<Rightarrow>
             Some ((set_worker s i (Executing t payload))
                     \<lparr> invoked := invoked s @ [payload] \<rparr>)
         | _ \<Rightarrow> None)
      else None)"
| "worker s i WorkFuncReturns =
     (if i < length (workers s) then
        (case workers s ! i of
           Executing t payload \<Rightarrow> Some (set_worker s i (Waiting t))
         | _ \<Rightarrow> None)
      else None)"
| "worker s i TimerFires =
     (if i < length (workers s) then
        (case workers s ! i of
           Waiting t \<Rightarrow>
             if t \<le> clock s then
               (if CurrentWorkers (pool s) > MinWorkers (pool s)
                then Some (set_worker s i (Returning IdleExit))
                else Some (set_worker s i (Waiting (clock s + IdleTimeout (pool s)))))
             else None
         | _ \<Rightarrow> None)
      else None)"
| "worker s i SeesCtxDone =
     (if i < length (workers s) then
        (case workers s ! i of
           Waiting t \<Rightarrow>
             if Ctx_done (pool s) then Some (set_worker s i (Returning Cancelled)) else None
         | _ \<Rightarrow> None)
      else None)"
| "worker s i RunsDeferred =
     (if i < length (workers s) then
        (case workers s ! i of
           Returning r \<Rightarrow>
             Some ((set_worker s i (Exited r))
                     \<lparr> pool := (pool s) \<lparr> CurrentWorkers := i32 (CurrentWorkers (pool s) - 1),
                                          WG := WG (pool s) - 1 \<rparr> \<rparr>)
         | _ \<Rightarrow> None)
      else None)"

subsection \<open>readChan\<close>

text \<open>
  The source is the channel \<^verbatim>\<open>InputChan\<close>. Its buffer holds, in order, the items the
  producer sends, and \<open>chan_closed\<close> says that the producer closes the channel after
  them. When \<^verbatim>\<open>readChan\<close> receives the next item is left to the schedule, so an item
  that the producer sends late is an item that is received late. A receive from a closed
  channel yields the buffered items first.
\<close>

fun readChan :: "'a system \<Rightarrow> readChan_event \<Rightarrow> 'a system option" where
  "readChan s RecvData =
     (case (bridge s, chan_buf (InputChan (pool s))) of
        (InReadChan, data # rest) \<Rightarrow>
          Some (s \<lparr> bridge := Enqueueing data,
                    pool := (pool s) \<lparr> InputChan := (InputChan (pool s)) \<lparr> chan_buf := rest \<rparr> \<rparr> \<rparr>)
      | _ \<Rightarrow> None)"
| "readChan s InputClosed =
     (if bridge s = InReadChan \<and> chan_buf (InputChan (pool s)) = [] \<and> chan_closed (InputChan (pool s))
      then Some (s \<lparr> bridge := AfterReadChan InputExhausted \<rparr>)
      else None)"
| "readChan s OuterCtxDone =
     (if bridge s = InReadChan \<and> Ctx_done (pool s)
      then Some (s \<lparr> bridge := AfterReadChan OuterCancelled \<rparr>)
      else None)"
| "readChan s SendQueue =
     (case bridge s of
        Enqueueing data \<Rightarrow>
          if length (chan_buf (Queue (pool s))) < chan_cap (Queue (pool s))
             \<and> \<not> chan_closed (Queue (pool s))
          then Some (s \<lparr> bridge := InReadChan,
                         pool := (pool s) \<lparr> Queue := (Queue (pool s))
                                   \<lparr> chan_buf := chan_buf (Queue (pool s)) @ [data] \<rparr> \<rparr> \<rparr>)
          else None
      | _ \<Rightarrow> None)"
| "readChan s InnerCtxDone =
     (case bridge s of
        Enqueueing data \<Rightarrow>
          if Ctx_done (pool s) then Some (s \<lparr> bridge := AfterReadChan InnerCancelled \<rparr>) else None
      | _ \<Rightarrow> None)"

subsection \<open>Start\<close>

text \<open>
  The steps of \<^verbatim>\<open>Start\<close> outside \<^verbatim>\<open>readChan\<close>: the body of the ticker case, statement
  by statement, the ticker goroutine's exit, and the two statements that follow the
  call of \<^verbatim>\<open>readChan\<close>. \<open>TickLoadWorkers u\<close> loads the counter and computes \<open>additional\<close>,
  \<open>u\<close> being the platform's result for a conversion that does not fit. \<open>TickGo\<close> is
  one iteration of the spawn loop. The ticker's period is not modelled: a tick may come
  at any time.
\<close>

fun Start :: "'a system \<Rightarrow> Start_event \<Rightarrow> 'a system option" where
  "Start s TickReadLen =
     (if scaler s = AwaitTick
      then Some (s \<lparr> scaler := HaveLen (i32 (int (length (chan_buf (Queue (pool s)))))) \<rparr>)
      else None)"
| "Start s (TickLoadWorkers u) =
     (case scaler s of
        HaveLen qLen \<Rightarrow>
          let currentWorkers = CurrentWorkers (pool s)
          in if scale_up (pool s) qLen currentWorkers
             then let a = additional (pool s) qLen currentWorkers u
                  in Some (s \<lparr> scaler := Spawning a (nat a) \<rparr>)
             else Some (s \<lparr> scaler := AwaitTick \<rparr>)
      | _ \<Rightarrow> None)"
| "Start s TickGo =
     (case scaler s of
        Spawning a (Suc n) \<Rightarrow>
          Some (s \<lparr> scaler := Spawning a n,
                    workers := workers s @ [Spawned],
                    pool := (pool s) \<lparr> WG := WG (pool s) + 1 \<rparr> \<rparr>)
      | _ \<Rightarrow> None)"
| "Start s TickAddWorkers =
     (case scaler s of
        Spawning a 0 \<Rightarrow>
          Some (s \<lparr> scaler := AwaitTick,
                    pool := (pool s) \<lparr> CurrentWorkers := i32 (CurrentWorkers (pool s) + a) \<rparr> \<rparr>)
      | _ \<Rightarrow> None)"
| "Start s TickerCtxDone =
     (if scaler s = AwaitTick \<and> Ctx_done (pool s)
      then Some (s \<lparr> scaler := ScalerDone \<rparr>)
      else None)"
| "Start s CloseQueue =
     (case bridge s of
        AfterReadChan r \<Rightarrow>
          if chan_closed (Queue (pool s)) then None
          else Some (s \<lparr> bridge := InWait,
                         pool := (pool s) \<lparr> Queue := (Queue (pool s)) \<lparr> chan_closed := True \<rparr> \<rparr> \<rparr>)
      | _ \<Rightarrow> None)"
| "Start s WaitReturns =
     (if bridge s = InWait \<and> WG (pool s) = 0
      then Some (s \<lparr> bridge := StartDone \<rparr>)
      else None)"

subsection \<open>Runs\<close>

fun step :: "'a system \<Rightarrow> action \<Rightarrow> 'a system option" where
  "step s StopCalled = Some (Stop s)"
| "step s (TimePasses d) = (if 0 \<le> d then Some (s \<lparr> clock := clock s + d \<rparr>) else None)"
| "step s (Worker i e) = worker s i e"
| "step s (ReadChan e) = readChan s e"
| "step s (StartStep e) = Start s e"

fun run :: "'a system \<Rightarrow> action list \<Rightarrow> 'a system option" where
  "run s [] = Some s"
| "run s (a # as) = (case step s a of None \<Rightarrow> None | Some s' \<Rightarrow> run s' as)"

text \<open>\<^verbatim>\<open>pool.WG.Wait()\<close>, the caller's join, returns when the counter is zero.\<close>

definition join_returns :: "'a system \<Rightarrow> bool" where
  "join_returns s \<longleftrightarrow> WG (pool s) = 0"

subsection \<open>Observations on states\<close>

text \<open>
  Functions of a state that the invariants and the theorems below speak of: the workers
  that have not yet run their deferred decrement (\<open>live\<close>), the workers the tick in
  progress has spawned and not yet added to the counter (\<open>started\<close>) and the number it
  is about to add (\<open>reserved\<close>), and whether the goroutine of \<^verbatim>\<open>Start\<close> is past its
  \<^verbatim>\<open>close(pool.Queue)\<close>.
\<close>

fun exited :: "'a worker_state \<Rightarrow> bool" where
  "exited (Exited r) = True"
| "exited _ = False"

definition live :: "'a worker_state list \<Rightarrow> int" where
  "live ws = int (length (filter (\<lambda>w. \<not> exited w) ws))"

fun started :: "scaler_state \<Rightarrow> int" where
  "started (Spawning a n) = a - int n"
| "started _ = 0"

fun reserved :: "scaler_state \<Rightarrow> int" where
  "reserved (Spawning a n) = a"
| "reserved _ = 0"

fun scaler_ok :: "int \<Rightarrow> int \<Rightarrow> scaler_state \<Rightarrow> bool" where
  "scaler_ok mx qs (Spawning a n) \<longleftrightarrow> 1 \<le> a \<and> int n \<le> a \<and> a \<le> mx"
| "scaler_ok mx qs (HaveLen q) \<longleftrightarrow> 0 \<le> q \<and> q \<le> qs"
| "scaler_ok mx qs _ \<longleftrightarrow> True"

fun past_close :: "'a bridge_state \<Rightarrow> bool" where
  "past_close InWait = True"
| "past_close StartDone = True"
| "past_close _ = False"

text \<open>No step writes a configuration field.\<close>

definition same_config :: "'a AutoScaleWorkerPool \<Rightarrow> 'a AutoScaleWorkerPool \<Rightarrow> bool" where
  "same_config p p' \<longleftrightarrow>
     MinWorkers p' = MinWorkers p \<and> MaxWorkers p' = MaxWorkers p \<and>
     QueueSize p' = QueueSize p \<and> ScaleThreshold p' = ScaleThreshold p \<and>
     IdleTimeout p' = IdleTimeout p"

text \<open>
  The configurations the constructor stores when its \<^verbatim>\<open>int32\<close> arguments are within
  \<^verbatim>\<open>int32\<close>; nothing is asked of the product \<^verbatim>\<open>QueueSize * ScaleThreshold\<close>, which may wrap.
\<close>

definition config_int32 :: "'a AutoScaleWorkerPool \<Rightarrow> bool" where
  "config_int32 p \<longleftrightarrow>
     1 \<le> MaxWorkers p \<and> MaxWorkers p \<le> 2147483647 \<and>
     1 \<le> QueueSize p \<and> QueueSize p \<le> 2147483647 \<and>
     1 \<le> ScaleThreshold p \<and> ScaleThreshold p \<le> 100"

text \<open>Among them, those on which the difference \<^verbatim>\<open>QueueSize - thresholdCount\<close> does not wrap.\<close>

definition tick_fits :: "'a AutoScaleWorkerPool \<Rightarrow> bool" where
  "tick_fits p \<longleftrightarrow>
     1 \<le> MaxWorkers p \<and> MaxWorkers p \<le> 2147483647 \<and>
     1 \<le> QueueSize p \<and> QueueSize p \<le> 2147483647 \<and>
     1 \<le> ScaleThreshold p \<and> ScaleThreshold p \<le> 100 \<and>
     QueueSize p - thresholdCount p \<le> 2147483647"

text \<open>The bookkeeping of the worker counter, kept by every step of a run.\<close>

definition counter_inv :: "'a system \<Rightarrow> bool" where
  "counter_inv s \<longleftrightarrow>
     config_int32 (pool s) \<and>
     1 \<le> MinWorkers (pool s) \<and> MinWorkers (pool s) \<le> 2147483647 \<and>
     chan_cap (Queue (pool s)) = nat (QueueSize (pool s)) \<and>
     length (chan_buf (Queue (pool s))) \<le> nat (QueueSize (pool s)) \<and>
     CurrentWorkers (pool s) + started (scaler s) = live (workers s) \<and>
     scaler_ok (MaxWorkers (pool s)) (QueueSize (pool s)) (scaler s) \<and>
     CurrentWorkers (pool s) + reserved (scaler s)
       \<le> max (MinWorkers (pool s)) (MaxWorkers (pool s))"

text \<open>The queue is closed exactly when \<^verbatim>\<open>Start\<close> is past its \<^verbatim>\<open>close(pool.Queue)\<close>.\<close>

definition close_inv :: "'a system \<Rightarrow> bool" where
  "close_inv s \<longleftrightarrow> (chan_closed (Queue (pool s)) \<longleftrightarrow> past_close (bridge s))"

subsection \<open>Runs in which the exits of idle workers do not overlap\<close>

text \<open>The states a run passes through, the first and the last included.\<close>

fun states :: "'a system \<Rightarrow> action list \<Rightarrow> 'a system list" where
  "states s [] = [s]"
| "states s (a # as) = s # (case step s a of None \<Rightarrow> [] | Some s' \<Rightarrow> states s' as)"

text \<open>
  A worker that has left its loop at shutdown: because the queue was closed and drained,
  or because the context was done.
\<close>

fun shutdown_exit :: "'a worker_state \<Rightarrow> bool" where
  "shutdown_exit (Returning QueueClosed) = True"
| "shutdown_exit (Returning Cancelled) = True"
| "shutdown_exit (Exited QueueClosed) = True"
| "shutdown_exit (Exited Cancelled) = True"
| "shutdown_exit _ = False"

text \<open>
  A worker between the check of its timer case (it has read a counter above
  \<open>MinWorkers\<close> and returned) and the decrement of its deferred function.
\<close>

fun idle_leaving :: "'a worker_state \<Rightarrow> bool" where
  "idle_leaving (Returning IdleExit) = True"
| "idle_leaving _ = False"

definition idle_returning :: "'a worker_state list \<Rightarrow> int" where
  "idle_returning ws = int (length (filter idle_leaving ws))"

text \<open>
  A state before shutdown in which at most one worker stands between its idle check and
  its decrement.
\<close>

definition exits_apart :: "'a system \<Rightarrow> bool" where
  "exits_apart s \<longleftrightarrow>
     idle_returning (workers s) \<le> 1 \<and> list_all (\<lambda>w. \<not> shutdown_exit w) (workers s)"

definition floor_inv :: "'a system \<Rightarrow> bool" where
  "floor_inv s \<longleftrightarrow>
     MinWorkers (pool s) \<le> CurrentWorkers (pool s) - idle_returning (workers s)"

subsection \<open>Schedules\<close>

text \<open>
  A whole tick with no step of another goroutine in between: the two reads, \<open>n\<close>
  iterations of the spawn loop, the atomic addition.
\<close>

definition tick :: "int \<Rightarrow> nat \<Rightarrow> action list" where
  "tick u n =
     [StartStep TickReadLen, StartStep (TickLoadWorkers u)]
       @ replicate n (StartStep TickGo) @ [StartStep TickAddWorkers]"

text \<open>A tick that finds its guard false.\<close>

definition idle_tick :: "int \<Rightarrow> action list" where
  "idle_tick u = [StartStep TickReadLen, StartStep (TickLoadWorkers u)]"

section \<open>SafeMap (safeMap.go)\<close>













section \<open>Lemmas on the machine arithmetic\<close>

lemma rne_floor_le: "\<lfloor>q\<rfloor> \<le> rne q"
  by (simp add: rne_def Let_def)

lemma rne_le_ceiling: "rne q \<le> \<lceil>q\<rceil>"
proof (cases "q = of_int \<lfloor>q\<rfloor>")
  case True
  then have "rne q = \<lfloor>q\<rfloor>" by (simp add: rne_def Let_def)
  then show ?thesis by (simp add: floor_le_ceiling)
next
  case False
  then have "\<lceil>q\<rceil> = \<lfloor>q\<rfloor> + 1"
    by (simp add: ceiling_altdef)
  then show ?thesis by (simp add: rne_def Let_def)
qed

lemma rne_of_int [simp]: "rne (of_int k) = k"
  by (simp add: rne_def)

lemma rne_le_int: "q \<le> of_int k \<Longrightarrow> rne q \<le> k"
proof -
  assume "q \<le> of_int k"
  then have "\<lceil>q\<rceil> \<le> k" by (simp add: ceiling_le_iff)
  with rne_le_ceiling [of q] show ?thesis by linarith
qed

lemma rne_nonneg: "0 \<le> q \<Longrightarrow> 0 \<le> rne q"
proof -
  assume "0 \<le> q"
  then have "0 \<le> \<lfloor>q\<rfloor>" by simp
  with rne_floor_le [of q] show ?thesis by linarith
qed

lemma pow2_of_int: "0 \<le> k \<Longrightarrow> (2::rat) powi k = of_int (2 ^ nat k)"
  by (simp add: power_int_def)

lemma ilog2_bounds:
  assumes "0 < q"
  shows "2 powi (ilog2 q) \<le> q \<and> q < 2 powi (ilog2 q + 1)"
proof -
  obtain a b where ab: "quotient_of q = (a, b)" by (cases "quotient_of q")
  then have b: "0 < b" and q: "q = of_int a / of_int b"
    by (auto dest: quotient_of_denom_pos quotient_of_div)
  with assms have a: "0 < a"
    by (simp add: zero_less_divide_iff)
  define la lb where "la = bitlen a" and "lb = bitlen b"
  have la: "2 ^ nat (la - 1) \<le> a" "a < 2 ^ nat la" and lb: "2 ^ nat (lb - 1) \<le> b" "b < 2 ^ nat lb"
    using bitlen_bounds [OF a] bitlen_bounds [OF b] by (simp_all add: la_def lb_def)
  have la1: "1 \<le> la" and lb1: "1 \<le> lb"
    using a b by (auto simp: la_def lb_def bitlen_alt_def)
  have ra: "(2::rat) powi (la - 1) \<le> of_int a" "(of_int a :: rat) < 2 powi la"
    using la la1 by (simp_all only: pow2_of_int of_int_le_iff of_int_less_iff)
  have rb: "(2::rat) powi (lb - 1) \<le> of_int b" "(of_int b :: rat) < 2 powi lb"
    using lb lb1 by (simp_all only: pow2_of_int of_int_le_iff of_int_less_iff)
  have up: "q < 2 powi (la - lb + 1)"
  proof -
    have "q < 2 powi la / 2 powi (lb - 1)"
      unfolding q using ra(2) rb(1) a b
      by (intro frac_less) (auto simp: zero_less_power_int)
    also have "\<dots> = 2 powi (la - lb + 1)"
      by (simp add: power_int_diff [symmetric] algebra_simps)
    finally show ?thesis .
  qed
  have lo: "2 powi (la - lb - 1) \<le> q"
  proof -
    have "2 powi (la - 1) / 2 powi lb \<le> q"
      unfolding q using ra(1) rb(2) a b
      by (intro frac_le) (auto simp: zero_less_power_int less_imp_le)
    moreover have "(2::rat) powi (la - 1) / 2 powi lb = 2 powi (la - lb - 1)"
      by (simp add: power_int_diff [symmetric] algebra_simps)
    ultimately show ?thesis by simp
  qed
  show ?thesis
    using up lo by (simp add: ilog2_def ab la_def [symmetric] lb_def [symmetric] Let_def not_le)
qed

lemma div_pow2_int:
  assumes "k \<le> 0"
  shows "(of_int m :: rat) / 2 powi k = of_int (m * 2 ^ nat (- k))"
  using assms by (simp add: power_int_def field_simps)

lemma mult_pow2_int:
  assumes "k \<le> 0"
  shows "(of_int (m * 2 ^ nat (- k)) :: rat) * 2 powi k = of_int m"
  using assms by (simp add: power_int_def field_simps)

lemma ilog2_le_52:
  assumes "0 < q" "q \<le> of_int n" "n < 2 ^ 53"
  shows "ilog2 q \<le> 52"
proof (rule ccontr)
  assume "\<not> ilog2 q \<le> 52"
  then have "53 \<le> ilog2 q" by simp
  then have "(2::rat) powi 53 \<le> 2 powi (ilog2 q)"
    by (intro power_int_increasing) simp_all
  also have "\<dots> \<le> q" using ilog2_bounds [OF assms(1)] by simp
  also have "\<dots> \<le> of_int n" by fact
  also have "\<dots> < of_int (2 ^ 53)" using assms(3) by (simp only: of_int_less_iff)
  finally show False by simp
qed

lemma f64_round_pos:
  assumes "0 < q"
  shows "f64_round q =
    (if (2::rat) ^ 1024 \<le> of_int (rne (q / 2 powi (max (ilog2 q - 52) (- 1074)))) * 2 powi (max (ilog2 q - 52) (- 1074))
     then None
     else Some (of_int (rne (q / 2 powi (max (ilog2 q - 52) (- 1074)))) * 2 powi (max (ilog2 q - 52) (- 1074))))"
proof -
  have "\<bar>q\<bar> = q" "sgn q = 1" "q \<noteq> 0" using assms by simp_all
  then show ?thesis by (simp add: f64_round_def Let_def)
qed

lemma f64_round_le_int_gen:
  assumes "0 < q" "q \<le> of_int n" "ilog2 q \<le> 52" "n < 2 ^ 1024"
  shows "\<exists>r. f64_round q = Some r \<and> 0 \<le> r \<and> r \<le> of_int n"
proof -
  define k where "k = max (ilog2 q - 52) (- 1074)"
  define u :: rat where "u = 2 powi k"
  define r where "r = of_int (rne (q / u)) * u"
  have k: "k \<le> 0" using assms(3) by (simp add: k_def)
  have u: "0 < u" by (simp add: u_def zero_less_power_int)
  have "q / u \<le> of_int n / u" using assms(2) u by (simp add: divide_right_mono)
  also have "\<dots> = of_int (n * 2 ^ nat (- k))" unfolding u_def by (rule div_pow2_int [OF k])
  finally have "rne (q / u) \<le> n * 2 ^ nat (- k)" by (rule rne_le_int)
  then have "(of_int (rne (q / u)) :: rat) \<le> of_int (n * 2 ^ nat (- k))"
    by (simp only: of_int_le_iff)
  then have "of_int (rne (q / u)) * u \<le> of_int (n * 2 ^ nat (- k)) * u"
    using u by (simp add: mult_right_mono)
  also have "\<dots> = of_int n" unfolding u_def by (rule mult_pow2_int [OF k])
  finally have le: "r \<le> of_int n" by (simp add: r_def)
  have "0 \<le> q / u" using assms(1) u by simp
  then have "0 \<le> rne (q / u)" by (rule rne_nonneg)
  then have ge: "0 \<le> r" using u by (simp add: r_def)
  have "of_int n < (of_int (2 ^ 1024) :: rat)" using assms(4) by (simp only: of_int_less_iff)
  then have "r < 2 ^ 1024" using le by simp
  moreover have "f64_round q = (if 2 ^ 1024 \<le> r then None else Some r)"
    unfolding r_def u_def k_def by (rule f64_round_pos [OF assms(1)])
  ultimately have "f64_round q = Some r" by simp
  with le ge show ?thesis by simp
qed

lemma f64_round_le_int:
  assumes "0 < q" "q \<le> of_int n" "n < 2 ^ 53"
  shows "\<exists>r. f64_round q = Some r \<and> 0 \<le> r \<and> r \<le> of_int n"
proof -
  have "n < 2 ^ 1024"
    using assms(3) by (rule less_trans) simp
  with assms(1,2) ilog2_le_52 [OF assms] show ?thesis
    by (rule f64_round_le_int_gen)
qed

lemma f64_round_int:
  assumes "0 \<le> n" "n < 2 ^ 53"
  shows "f64_round (of_int n) = Some (of_int n)"
proof (cases "n = 0")
  case True
  then show ?thesis by (simp add: f64_round_def)
next
  case False
  with assms have n: "0 < n" by simp
  define q :: rat where "q = of_int n"
  have q: "0 < q" "q \<le> of_int n" using n by (simp_all add: q_def)
  define k where "k = max (ilog2 q - 52) (- 1074)"
  define u :: rat where "u = 2 powi k"
  define r where "r = of_int (rne (q / u)) * u"
  have k: "k \<le> 0" using ilog2_le_52 [OF q assms(2)] by (simp add: k_def)
  have "q / u = of_int (n * 2 ^ nat (- k))"
    unfolding u_def q_def by (rule div_pow2_int [OF k])
  then have "rne (q / u) = n * 2 ^ nat (- k)"
    by (simp only: rne_of_int)
  then have "r = of_int (n * 2 ^ nat (- k)) * u"
    by (simp only: r_def)
  also have "\<dots> = q" unfolding u_def q_def by (rule mult_pow2_int [OF k])
  finally have r: "r = q" .
  have "q < (of_int (2 ^ 53) :: rat)" unfolding q_def using assms(2) by (simp only: of_int_less_iff)
  then have "r < 2 ^ 1024" unfolding r by simp
  moreover have "f64_round q = (if 2 ^ 1024 \<le> r then None else Some r)"
    unfolding r_def u_def k_def by (rule f64_round_pos [OF q(1)])
  ultimately have "f64_round q = Some q" using r by simp
  then show ?thesis by (simp add: q_def)
qed

lemma ilog2_unique:
  assumes "0 < q" "2 powi e \<le> q" "q < 2 powi (e + 1)"
  shows "ilog2 q = e"
proof (rule antisym)
  show "ilog2 q \<le> e"
  proof (rule ccontr)
    assume "\<not> ilog2 q \<le> e"
    then have "e + 1 \<le> ilog2 q" by simp
    then have "(2::rat) powi (e + 1) \<le> 2 powi (ilog2 q)"
      by (intro power_int_increasing) simp_all
    also have "\<dots> \<le> q" using ilog2_bounds [OF assms(1)] by simp
    finally show False using assms(3) by simp
  qed
  show "e \<le> ilog2 q"
  proof (rule ccontr)
    assume "\<not> e \<le> ilog2 q"
    then have "ilog2 q + 1 \<le> e" by simp
    then have "(2::rat) powi (ilog2 q + 1) \<le> 2 powi e"
      by (intro power_int_increasing) simp_all
    also have "\<dots> \<le> q" by fact
    finally show False using ilog2_bounds [OF assms(1)] by simp
  qed
qed

lemma f64_round_at:
  assumes "0 < q" "2 powi e \<le> q" "q < 2 powi (e + 1)" "- 1022 \<le> e" "e \<le> 52"
    and "rne (q * 2 ^ nat (52 - e)) = m"
  shows "f64_round q = Some (of_int m / 2 ^ nat (52 - e))"
proof -
  have il: "ilog2 q = e" by (rule ilog2_unique [OF assms(1,2,3)])
  have mx: "max (e - 52) (- 1074) = e - 52" using assms(4) by simp
  have u: "(2::rat) powi (e - 52) = 1 / 2 ^ nat (52 - e)"
    using assms(5) by (simp add: power_int_def field_simps)
  have "(2::rat) powi (e + 1) \<le> 2 powi 53"
    using assms(5) by (intro power_int_increasing) simp_all
  with assms(3) have "q \<le> of_int (2 ^ 53)" by simp
  moreover have "ilog2 q \<le> 52" using il assms(5) by simp
  ultimately have "\<exists>r. f64_round q = Some r \<and> 0 \<le> r \<and> r \<le> of_int (2 ^ 53)"
    using assms(1) by (intro f64_round_le_int_gen) simp_all
  then have "f64_round q \<noteq> None" by auto
  then show ?thesis
    unfolding f64_round_pos [OF assms(1)] il mx u
    using assms(6) by (simp split: if_splits)
qed

lemma floor_numeral_div:
  "\<lfloor>(numeral a :: rat) / numeral b\<rfloor> = numeral a div numeral b"
  using floor_divide_of_int_eq [of "numeral a" "numeral b", where ?'a = rat] by simp

section \<open>Properties of the constructor\<close>

text \<open>
  C2, as the code has it. For all arguments the constructor stores
  \<open>MinWorkers = max 1 minWorkers\<close>, \<open>MaxWorkers = max 1 maxWorkers\<close> (at least 1; it
  is not compared with \<open>MinWorkers\<close>), \<open>QueueSize = max 1 queueSize\<close>, a
  \<open>ScaleThreshold\<close> clamped into 1..100 and an \<open>IdleTimeout\<close> of at least five seconds;
  it sets \<open>CurrentWorkers\<close> to \<open>MinWorkers\<close>, registers and spawns that many workers and
  makes an empty open queue of capacity \<open>QueueSize\<close>. The constructor is a total
  function: it has no failing branch.
\<close>

theorem NewAutoScaleWorkerPool_config:
  fixes input :: "'a chan"
    and ctx :: bool
    and minWorkers maxWorkers queueSize scaleThreshold idleTimeout :: int
  defines "s \<equiv> NewAutoScaleWorkerPool ctx minWorkers maxWorkers queueSize scaleThreshold idleTimeout input"
  shows "MinWorkers (pool s) = max 1 minWorkers
    \<and> MaxWorkers (pool s) = max 1 maxWorkers
    \<and> 1 \<le> MaxWorkers (pool s)
    \<and> QueueSize (pool s) = max 1 queueSize
    \<and> ScaleThreshold (pool s) = min (max scaleThreshold 1) 100
    \<and> 1 \<le> ScaleThreshold (pool s) \<and> ScaleThreshold (pool s) \<le> 100
    \<and> IdleTimeout (pool s) = max 5000000000 idleTimeout
    \<and> DefaultIdleTimeout \<le> IdleTimeout (pool s)
    \<and> CurrentWorkers (pool s) = MinWorkers (pool s)
    \<and> WG (pool s) = MinWorkers (pool s)
    \<and> workers s = replicate (nat (MinWorkers (pool s))) Spawned
    \<and> Queue (pool s) = \<lparr> chan_buf = [], chan_cap = nat (QueueSize (pool s)), chan_closed = False \<rparr>"
  by (simp add: s_def NewAutoScaleWorkerPool_def DefaultMinWorkers_def DefaultMinQueueSize_def
      DefaultIdleTimeout_def Let_def)

text \<open>
  C2 as stated fails: with \<open>minWorkers = 5\<close> and \<open>maxWorkers = 2\<close> the stored maximum
  is 2, below the stored minimum 5.
\<close>

theorem NewAutoScaleWorkerPool_max_below_min:
  "MaxWorkers (pool (NewAutoScaleWorkerPool False 5 2 10 50 5000000000
      \<lparr> chan_buf = ([] :: nat list), chan_cap = 0, chan_closed = False \<rparr>)) = 2
   \<and> MinWorkers (pool (NewAutoScaleWorkerPool False 5 2 10 50 5000000000
      \<lparr> chan_buf = ([] :: nat list), chan_cap = 0, chan_closed = False \<rparr>)) = 5"
  by (simp add: NewAutoScaleWorkerPool_def DefaultMinWorkers_def Let_def)

section \<open>The scaling decision\<close>

lemma i32_id: "is_int32 x \<Longrightarrow> i32 x = x"
  by (simp add: i32_def is_int32_def)

lemma i32_id': "- 2147483648 \<le> x \<Longrightarrow> x \<le> 2147483647 \<Longrightarrow> i32 x = x"
  by (simp add: i32_def)

lemma i32_range: "- 2147483648 \<le> i32 x \<and> i32 x \<le> 2147483647"
proof -
  have "0 \<le> (x + 2147483648) mod 4294967296" "(x + 2147483648) mod 4294967296 < 4294967296"
    by simp_all
  then show ?thesis unfolding i32_def by linarith
qed

lemma sdiv_100:
  fixes x :: int
  assumes "- 2147483648 \<le> x" "x \<le> 2147483647"
  shows "- 21474836 \<le> x sdiv 100" and "x sdiv 100 \<le> 21474836"
    and "0 \<le> x \<Longrightarrow> x sdiv 100 = x div 100"
proof -
  show "0 \<le> x \<Longrightarrow> x sdiv 100 = x div 100"
    by (simp add: signed_divide_int_def sgn_if)
  show "- 21474836 \<le> x sdiv 100"
  proof (cases "0 \<le> x")
    case True
    then have "0 \<le> x div 100" by simp
    then show ?thesis using True by (simp add: signed_divide_int_def sgn_if)
  next
    case False
    then have "\<bar>x\<bar> \<le> 2147483648" using assms(1) by simp
    then have "\<bar>x\<bar> div 100 \<le> 2147483648 div 100" by (rule zdiv_mono1) simp
    then show ?thesis using False by (simp add: signed_divide_int_def sgn_if)
  qed
  show "x sdiv 100 \<le> 21474836"
  proof (cases "0 \<le> x")
    case True
    then have "x div 100 \<le> 2147483647 div 100" using assms(2) by (intro zdiv_mono1) simp_all
    then show ?thesis using True by (simp add: signed_divide_int_def sgn_if)
  next
    case False
    have "0 \<le> \<bar>x\<bar> div 100" by simp
    then show ?thesis using False by (simp add: signed_divide_int_def sgn_if)
  qed
qed

lemma thresholdCount_range:
  "- 21474836 \<le> thresholdCount p \<and> thresholdCount p \<le> 21474836"
  unfolding thresholdCount_def
  using sdiv_100(1,2) [of "i32 (QueueSize p * ScaleThreshold p)"] i32_range by simp

lemma thresholdCount_le_QueueSize:
  assumes "1 \<le> QueueSize p" "1 \<le> ScaleThreshold p" "ScaleThreshold p \<le> 100"
  shows "thresholdCount p \<le> QueueSize p"
proof (cases "QueueSize p * ScaleThreshold p \<le> 2147483647")
  case True
  have nn: "0 \<le> QueueSize p * ScaleThreshold p" using assms by simp
  then have "i32 (QueueSize p * ScaleThreshold p) = QueueSize p * ScaleThreshold p"
    using True by (intro i32_id') simp_all
  then have "thresholdCount p = QueueSize p * ScaleThreshold p div 100"
    using nn by (simp add: thresholdCount_def signed_divide_int_def sgn_if)
  moreover have "QueueSize p * ScaleThreshold p \<le> QueueSize p * 100"
    using assms by (intro mult_left_mono) simp_all
  then have "QueueSize p * ScaleThreshold p div 100 \<le> QueueSize p" by simp
  ultimately show ?thesis by simp
next
  case False
  have "QueueSize p * ScaleThreshold p \<le> QueueSize p * 100"
    using assms by (intro mult_left_mono) simp_all
  with False have "21474836 < QueueSize p" by simp
  with thresholdCount_range [of p] show ?thesis by simp
qed

lemma config_ok_prod:
  assumes "config_ok p"
  shows "QueueSize p \<le> QueueSize p * ScaleThreshold p"
    and "QueueSize p * ScaleThreshold p \<le> QueueSize p * 100"
    and "0 \<le> QueueSize p * ScaleThreshold p"
proof -
  have q: "0 \<le> QueueSize p" and s: "1 \<le> ScaleThreshold p" "ScaleThreshold p \<le> 100"
    using assms by (simp_all add: config_ok_def)
  have "QueueSize p * 1 \<le> QueueSize p * ScaleThreshold p"
    using s(1) q by (rule mult_left_mono)
  then show "QueueSize p \<le> QueueSize p * ScaleThreshold p" by simp
  show "QueueSize p * ScaleThreshold p \<le> QueueSize p * 100"
    using s(2) q by (rule mult_left_mono)
  show "0 \<le> QueueSize p * ScaleThreshold p"
    using q s(1) by simp
qed

lemma config_ok_QueueSize: "config_ok p \<Longrightarrow> QueueSize p \<le> 2147483647"
  using config_ok_prod(1) [of p] unfolding config_ok_def by linarith

lemma thresholdCount_eq:
  assumes "config_ok p"
  shows "thresholdCount p = QueueSize p * ScaleThreshold p div 100"
proof -
  have nn: "0 \<le> QueueSize p * ScaleThreshold p"
    by (rule config_ok_prod(3) [OF assms])
  moreover have "QueueSize p * ScaleThreshold p \<le> 2147483647"
    using assms unfolding config_ok_def by blast
  ultimately have "i32 (QueueSize p * ScaleThreshold p) = QueueSize p * ScaleThreshold p"
    by (intro i32_id') linarith+
  then show ?thesis
    using nn by (simp add: thresholdCount_def signed_divide_int_def sgn_if)
qed

lemma thresholdCount_bounds:
  assumes "config_ok p"
  shows "0 \<le> thresholdCount p \<and> thresholdCount p \<le> QueueSize p"
proof -
  have "QueueSize p * ScaleThreshold p div 100 \<le> QueueSize p"
    using config_ok_prod(2) [OF assms] by simp
  moreover have "0 \<le> QueueSize p * ScaleThreshold p div 100"
    using config_ok_prod(3) [OF assms] by simp
  ultimately show ?thesis by (simp add: thresholdCount_eq [OF assms])
qed

lemma tick_fits_config_ok:
  assumes "config_ok p"
  shows "tick_fits p"
  using assms thresholdCount_bounds [OF assms] config_ok_QueueSize [OF assms]
  by (simp add: tick_fits_def config_ok_def)

lemma excess_eq:
  assumes "tick_fits p" "0 \<le> qLen" "qLen \<le> QueueSize p"
  shows "excess p qLen = qLen - thresholdCount p"
  unfolding excess_def
  using assms thresholdCount_range [of p]
  by (intro i32_id') (simp_all add: tick_fits_def)

lemma maxExcess_eq:
  assumes "tick_fits p"
  shows "maxExcess p = QueueSize p - thresholdCount p"
proof -
  have "thresholdCount p \<le> QueueSize p"
    using assms by (intro thresholdCount_le_QueueSize) (simp_all add: tick_fits_def)
  then show ?thesis
    unfolding maxExcess_def using assms by (intro i32_id') (simp_all add: tick_fits_def)
qed

lemma ratio_bounds:
  assumes "tick_fits p" "0 \<le> qLen" "thresholdCount p \<le> qLen" "qLen \<le> QueueSize p"
  shows "\<exists>r. ratio p qLen = Some r \<and> 0 \<le> r \<and> r \<le> 1"
proof (cases "maxExcess p = 0")
  case True
  then show ?thesis by (simp add: ratio_def)
next
  case False
  have e: "excess p qLen = qLen - thresholdCount p" by (rule excess_eq [OF assms(1,2,4)])
  have m: "maxExcess p = QueueSize p - thresholdCount p" by (rule maxExcess_eq [OF assms(1)])
  have mpos: "0 < maxExcess p" using False m assms(3,4) by simp
  show ?thesis
  proof (cases "excess p qLen = 0")
    case True
    then show ?thesis using False by (simp add: ratio_def f64_div_def f64_of_int32_def f64_round_def)
  next
    case nz: False
    then have epos: "0 < excess p qLen" using e assms(3) by simp
    have le: "excess p qLen \<le> maxExcess p" using e m assms(4) by simp
    define q :: rat where "q = of_int (excess p qLen) / of_int (maxExcess p)"
    have "0 < q" using epos mpos by (simp add: q_def)
    moreover have "q \<le> of_int 1" using le mpos by (simp add: q_def)
    ultimately have "\<exists>r. f64_round q = Some r \<and> 0 \<le> r \<and> r \<le> of_int 1"
      by (rule f64_round_le_int) simp
    then show ?thesis using False by (simp add: ratio_def f64_div_def f64_of_int32_def q_def)
  qed
qed

lemma potentialAdditional_floor:
  assumes "tick_fits p" "0 \<le> qLen" "thresholdCount p \<le> qLen" "qLen \<le> QueueSize p"
    and "0 \<le> cur" "cur < MaxWorkers p"
  shows "\<exists>r f. ratio p qLen = Some r \<and> f64_mul r (of_int (MaxWorkers p - cur)) = Some f
           \<and> potentialAdditional p qLen cur u = \<lfloor>f\<rfloor>
           \<and> 0 \<le> \<lfloor>f\<rfloor> \<and> \<lfloor>f\<rfloor> \<le> MaxWorkers p - cur"
proof -
  obtain r where r: "ratio p qLen = Some r" "0 \<le> r" "r \<le> 1"
    using ratio_bounds [OF assms(1,2,3,4)] by blast
  define d where "d = MaxWorkers p - cur"
  have d: "0 < d" "d \<le> 2147483647" using assms by (simp_all add: d_def tick_fits_def)
  then have id: "i32 (MaxWorkers p - cur) = d" unfolding d_def by (intro i32_id') simp_all
  have "\<exists>f. f64_round (r * of_int d) = Some f \<and> 0 \<le> f \<and> f \<le> of_int d"
  proof (cases "r = 0")
    case True
    then show ?thesis using d by (simp add: f64_round_def)
  next
    case False
    then have "0 < r * of_int d" using r d by simp
    moreover have "r * of_int d \<le> of_int d" using r d by (simp add: mult_le_cancel_right1)
    moreover have "d < 2 ^ 53" using d by simp
    ultimately show ?thesis by (rule f64_round_le_int)
  qed
  then obtain f where f: "f64_round (r * of_int d) = Some f" "0 \<le> f" "f \<le> of_int d" by blast
  have fl: "0 \<le> \<lfloor>f\<rfloor>" "\<lfloor>f\<rfloor> \<le> d" using f by (simp_all add: floor_le_iff le_floor_iff)
  then have "is_int32 \<lfloor>f\<rfloor>"
    using d unfolding is_int32_def by linarith
  then have "int32_of_f64 u f = \<lfloor>f\<rfloor>"
    using f(2) by (simp add: int32_of_f64_def)
  then have "potentialAdditional p qLen cur u = \<lfloor>f\<rfloor>"
    using r(1) f(1) by (simp add: potentialAdditional_def f64_mul_def f64_of_int32_def id)
  moreover have "f64_mul r (of_int (MaxWorkers p - cur)) = Some f"
    using f(1) by (simp add: f64_mul_def d_def)
  ultimately show ?thesis
    using fl r(1) by (simp add: d_def)
qed

lemma additional_clamp:
  assumes "potentialAdditional p qLen cur u = pa" "0 \<le> pa" "pa \<le> MaxWorkers p - cur"
    and "0 \<le> cur" "cur < MaxWorkers p" "MaxWorkers p \<le> 2147483647"
  shows "additional p qLen cur u = max 1 pa"
    and "additional p qLen cur u = min (MaxWorkers p - cur) (max 1 pa)"
proof -
  have "cur + max 1 pa \<le> MaxWorkers p" using assms by simp
  moreover from this have "i32 (cur + max 1 pa) = cur + max 1 pa"
    using assms by (intro i32_id') simp_all
  ultimately show "additional p qLen cur u = max 1 pa"
    using assms(1) by (simp add: additional_def Let_def)
  then show "additional p qLen cur u = min (MaxWorkers p - cur) (max 1 pa)"
    using assms by simp
qed

lemma additional_bounds:
  assumes "tick_fits p" "0 \<le> qLen" "thresholdCount p \<le> qLen" "qLen \<le> QueueSize p"
    and "0 \<le> cur" "cur < MaxWorkers p"
  shows "1 \<le> additional p qLen cur u \<and> additional p qLen cur u \<le> MaxWorkers p - cur"
proof -
  obtain pa where pa: "potentialAdditional p qLen cur u = pa" "0 \<le> pa" "pa \<le> MaxWorkers p - cur"
    using potentialAdditional_floor [OF assms] by blast
  have "MaxWorkers p \<le> 2147483647" using assms(1) by (simp add: tick_fits_def)
  from additional_clamp(1) [OF pa assms(5,6) this] pa assms(6) show ?thesis by simp
qed

lemma f64_mul_one_int:
  assumes "0 \<le> d" "d \<le> 2147483647"
  shows "f64_mul 1 (of_int d) = Some (of_int d)"
proof -
  have "d < 2 ^ 53" using assms(2) by simp
  with assms(1) show ?thesis by (simp add: f64_mul_def f64_round_int)
qed

lemma tick_added_ratio_one:
  assumes "1 \<le> MaxWorkers p" "MaxWorkers p \<le> 2147483647" "thresholdCount p \<le> qLen"
    and "0 \<le> cur" "cur < MaxWorkers p" "ratio p qLen = Some 1"
  shows "tick_added p qLen cur u = MaxWorkers p - cur"
proof -
  define d where "d = MaxWorkers p - cur"
  have d: "0 < d" "d \<le> 2147483647" using assms by (simp_all add: d_def)
  then have id: "i32 (MaxWorkers p - cur) = d" unfolding d_def by (intro i32_id') simp_all
  have "is_int32 d" using d by (simp add: is_int32_def)
  then have "int32_of_f64 u (of_int d) = d" using d by (simp add: int32_of_f64_def)
  then have pa: "potentialAdditional p qLen cur u = d"
    using assms(6) d by (simp add: potentialAdditional_def id f64_of_int32_def f64_mul_one_int)
  from additional_clamp(1) [OF pa _ _ assms(4,5,2)] d
  have "additional p qLen cur u = d" by (simp add: d_def)
  then show ?thesis using assms(3,5) by (simp add: tick_added_def scale_up_def d_def)
qed

lemma f64_round_neg: "f64_round (- q) = map_option uminus (f64_round q)"
  by (simp add: f64_round_def Let_def)

lemma i32_cong: "\<exists>k. i32 x = x - 4294967296 * k"
proof -
  have "(x + 2147483648) mod 4294967296
      = (x + 2147483648) - 4294967296 * ((x + 2147483648) div 4294967296)"
    by (simp add: minus_mult_div_eq_mod)
  then have "i32 x = x - 4294967296 * ((x + 2147483648) div 4294967296)"
    by (simp add: i32_def)
  then show ?thesis ..
qed

lemma QueueSize_thresholdCount_wrap:
  assumes "config_int32 p"
  shows "QueueSize p - thresholdCount p \<le> 2147483648"
proof (cases "QueueSize p \<le> 2126008812")
  case True
  with thresholdCount_range [of p] show ?thesis by simp
next
  case False
  define j where "j = 2147483647 - QueueSize p"
  define w where "w = ScaleThreshold p * (1 + j)"
  define v where "v = i32 (QueueSize p * ScaleThreshold p)"
  have j: "0 \<le> j" "j \<le> 21474834"
    using assms False by (simp_all add: j_def config_int32_def)
  have s: "1 \<le> ScaleThreshold p" "ScaleThreshold p \<le> 100"
    using assms by (simp_all add: config_int32_def)
  have "1 * (1 + j) \<le> ScaleThreshold p * (1 + j)"
    using s(1) j(1) by (intro mult_right_mono) simp_all
  then have w0: "0 < w" using j(1) by (simp add: w_def)
  have "ScaleThreshold p * (1 + j) \<le> 100 * (1 + j)"
    using s(2) j(1) by (intro mult_right_mono) simp_all
  then have w1: "w \<le> 100 * (1 + j)" by (simp add: w_def)
  have "w = ScaleThreshold p * 2147483648 - ScaleThreshold p * QueueSize p"
    by (simp add: w_def j_def right_diff_distrib)
  then have qs: "QueueSize p * ScaleThreshold p = 2147483648 * ScaleThreshold p - w"
    by (simp add: mult.commute)
  obtain k where k: "v = QueueSize p * ScaleThreshold p - 4294967296 * k"
    unfolding v_def using i32_cong by blast
  have vr: "- 2147483648 \<le> v" unfolding v_def using i32_range by simp
  define t where "t = ScaleThreshold p - 2 * k"
  have vw: "v + w = 2147483648 * t"
    unfolding k qs t_def by (simp add: right_diff_distrib)
  have lo: "- (100 * (1 + j)) \<le> v"
  proof (rule ccontr)
    assume "\<not> - (100 * (1 + j)) \<le> v"
    then have "v + w < 0" using w1 by linarith
    then have 1: "2147483648 * t < 0" unfolding vw .
    have "- 2147483648 < v + w" using vr w0 by linarith
    then have 2: "- 2147483648 < 2147483648 * t" unfolding vw .
    from 1 have "t < 0" by (simp add: mult_less_0_iff)
    then have "t \<le> - 1" by simp
    then have "2147483648 * t \<le> 2147483648 * (- 1)" by (intro mult_left_mono) simp_all
    with 2 show False by simp
  qed
  have "- (1 + j) \<le> v sdiv 100"
  proof (cases "0 \<le> v")
    case True
    then have "0 \<le> v div 100" by simp
    then show ?thesis using True j(1) by (simp add: signed_divide_int_def sgn_if)
  next
    case False
    have "(- v) div 100 \<le> (100 * (1 + j)) div 100"
      using lo by (intro zdiv_mono1) simp_all
    then have "(- v) div 100 \<le> 1 + j" by simp
    then show ?thesis using False by (simp add: signed_divide_int_def sgn_if)
  qed
  then have "- (1 + j) \<le> thresholdCount p" by (simp add: thresholdCount_def v_def)
  then show ?thesis by (simp add: j_def)
qed

lemma f64_round_scaled:
  assumes "0 \<le> r" "r \<le> 1" "0 < d" "d \<le> 2147483647"
  shows "\<exists>f. f64_round (r * of_int d) = Some f \<and> 0 \<le> f \<and> f \<le> of_int d"
proof (cases "r = 0")
  case True
  then show ?thesis using assms by (simp add: f64_round_def)
next
  case False
  then have "0 < r * of_int d" using assms by simp
  moreover have "r * of_int d \<le> of_int d" using assms by (simp add: mult_le_cancel_right1)
  moreover have "d < 2 ^ 53" using assms by simp
  ultimately show ?thesis by (rule f64_round_le_int)
qed

lemma additional_wrap:
  assumes "config_int32 p" "QueueSize p - thresholdCount p = 2147483648"
    and "0 \<le> qLen" "thresholdCount p \<le> qLen" "qLen \<le> QueueSize p"
    and "0 \<le> cur" "cur < MaxWorkers p"
  shows "1 \<le> additional p qLen cur u \<and> additional p qLen cur u \<le> MaxWorkers p - cur"
proof -
  have mx: "1 \<le> MaxWorkers p" "MaxWorkers p \<le> 2147483647"
    using assms(1) by (simp_all add: config_int32_def)
  have m: "maxExcess p = - 2147483648"
    by (simp add: maxExcess_def assms(2) i32_def)
  define d where "d = MaxWorkers p - cur"
  have d: "0 < d" "d \<le> 2147483647" using assms mx by (simp_all add: d_def)
  then have id: "i32 (MaxWorkers p - cur) = d" unfolding d_def by (intro i32_id') simp_all
  show ?thesis
  proof (cases "qLen = QueueSize p")
    case True
    then have "excess p qLen = - 2147483648"
      by (simp add: excess_def assms(2) i32_def)
    then have "ratio p qLen = Some 1"
      using m f64_round_int [of 1] by (simp add: ratio_def f64_div_def f64_of_int32_def)
    from tick_added_ratio_one [OF mx assms(4,6,7) this, of u] assms(4,7) d
    show ?thesis by (simp add: tick_added_def scale_up_def d_def)
  next
    case False
    define e where "e = qLen - thresholdCount p"
    have e: "0 \<le> e" "e < 2147483648" using assms False by (simp_all add: e_def)
    then have ex: "excess p qLen = e"
      unfolding excess_def e_def [symmetric] by (intro i32_id') simp_all
    have "\<exists>r. f64_round (of_int e / 2147483648) = Some r \<and> 0 \<le> r \<and> r \<le> 1"
    proof (cases "e = 0")
      case True
      then show ?thesis by (simp add: f64_round_def)
    next
      case False
      then have "0 < (of_int e / 2147483648 :: rat)" using e by simp
      moreover have "(of_int e / 2147483648 :: rat) \<le> of_int 1" using e by simp
      ultimately have "\<exists>r. f64_round (of_int e / 2147483648) = Some r \<and> 0 \<le> r \<and> r \<le> of_int 1"
        by (rule f64_round_le_int) simp
      then show ?thesis by simp
    qed
    then obtain r where r: "f64_round (of_int e / 2147483648) = Some r" "0 \<le> r" "r \<le> 1"
      by blast
    have "f64_round (of_int e / - 2147483648) = Some (- r)"
      using f64_round_neg [of "of_int e / 2147483648"] r(1) by simp
    then have ra: "ratio p qLen = Some (- r)"
      using m ex by (simp add: ratio_def f64_div_def f64_of_int32_def)
    obtain f where f: "f64_round (r * of_int d) = Some f" "0 \<le> f" "f \<le> of_int d"
      using f64_round_scaled [OF r(2,3) d] by blast
    have fm: "f64_mul (- r) (of_int d) = Some (- f)"
      using f64_round_neg [of "r * of_int d"] f(1) by (simp add: f64_mul_def)
    define t where "t = (if 0 \<le> - f then \<lfloor>- f\<rfloor> else \<lceil>- f\<rceil>)"
    have t: "t \<le> 0" "- d \<le> t"
      using f(2,3) by (auto simp: t_def ceiling_le_iff le_ceiling_iff floor_le_iff le_floor_iff)
    then have "is_int32 t" using d by (simp add: is_int32_def)
    then have "int32_of_f64 u (- f) = t" by (simp add: int32_of_f64_def t_def Let_def)
    then have pa: "potentialAdditional p qLen cur u = t"
      using ra fm by (simp add: potentialAdditional_def f64_of_int32_def id)
    have "i32 (cur + 1) = cur + 1" using assms(6,7) mx by (intro i32_id') simp_all
    then have "additional p qLen cur u = 1"
      using pa t(1) assms(7) by (simp add: additional_def Let_def max_def)
    then show ?thesis using assms(7) by simp
  qed
qed

lemma additional_bounds_int32:
  assumes "config_int32 p" "0 \<le> qLen" "thresholdCount p \<le> qLen" "qLen \<le> QueueSize p"
    and "0 \<le> cur" "cur < MaxWorkers p"
  shows "1 \<le> additional p qLen cur u \<and> additional p qLen cur u \<le> MaxWorkers p - cur"
proof (cases "QueueSize p - thresholdCount p \<le> 2147483647")
  case True
  with assms(1) have "tick_fits p" by (simp add: tick_fits_def config_int32_def)
  then show ?thesis using assms(2-) by (rule additional_bounds)
next
  case False
  with QueueSize_thresholdCount_wrap [OF assms(1)]
  have "QueueSize p - thresholdCount p = 2147483648" by simp
  with assms(1) show ?thesis using assms(2-) by (rule additional_wrap)
qed

lemmas New_simps = NewAutoScaleWorkerPool_def DefaultMinWorkers_def DefaultMinQueueSize_def
  DefaultIdleTimeout_def Let_def

text \<open>
  C3, as the code has it. For a configuration of the constructor whose threshold product
  fits \<^verbatim>\<open>int32\<close>, and a snapshot \<open>0 \<le> qLen \<le> QueueSize\<close>, \<open>0 \<le> cur\<close>: the threshold
  count is \<open>QueueSize * ScaleThreshold div 100\<close>; when \<open>qLen\<close> is below it or \<open>cur\<close> has
  reached \<open>MaxWorkers\<close>, the tick adds no worker; otherwise it adds
  \<open>min (MaxWorkers - cur) (max 1 \<lfloor>f\<rfloor>)\<close> workers, where \<open>f\<close> is the \<^verbatim>\<open>float64\<close> product of the
  ratio and \<open>MaxWorkers - cur\<close>, and the ratio is the \<^verbatim>\<open>float64\<close> quotient of
  \<open>qLen - thresholdCount\<close> by \<open>QueueSize - thresholdCount\<close>, or 1 when the two are equal.
  The quotient and the product are each rounded to the nearest \<^verbatim>\<open>float64\<close>.
\<close>

theorem tick_added_rounded_formula:
  assumes "config_ok p" "0 \<le> qLen" "qLen \<le> QueueSize p" "0 \<le> cur"
  shows "thresholdCount p = QueueSize p * ScaleThreshold p div 100
    \<and> (qLen < thresholdCount p \<or> MaxWorkers p \<le> cur \<longrightarrow> tick_added p qLen cur u = 0)
    \<and> (thresholdCount p \<le> qLen \<and> cur < MaxWorkers p \<longrightarrow>
         (\<exists>r f. (if QueueSize p = thresholdCount p then r = 1
                  else f64_div (of_int (qLen - thresholdCount p))
                         (of_int (QueueSize p - thresholdCount p)) = Some r)
              \<and> f64_mul r (of_int (MaxWorkers p - cur)) = Some f
              \<and> tick_added p qLen cur u = min (MaxWorkers p - cur) (max 1 \<lfloor>f\<rfloor>)))"
proof (intro conjI impI)
  show "thresholdCount p = QueueSize p * ScaleThreshold p div 100"
    by (rule thresholdCount_eq [OF assms(1)])
  show "tick_added p qLen cur u = 0" if "qLen < thresholdCount p \<or> MaxWorkers p \<le> cur"
    using that by (auto simp: tick_added_def scale_up_def)
  show "\<exists>r f. (if QueueSize p = thresholdCount p then r = 1
                  else f64_div (of_int (qLen - thresholdCount p))
                         (of_int (QueueSize p - thresholdCount p)) = Some r)
              \<and> f64_mul r (of_int (MaxWorkers p - cur)) = Some f
              \<and> tick_added p qLen cur u = min (MaxWorkers p - cur) (max 1 \<lfloor>f\<rfloor>)"
    if g: "thresholdCount p \<le> qLen \<and> cur < MaxWorkers p"
  proof -
    have fits: "tick_fits p" by (rule tick_fits_config_ok [OF assms(1)])
    obtain r f where rf: "ratio p qLen = Some r" "f64_mul r (of_int (MaxWorkers p - cur)) = Some f"
      "potentialAdditional p qLen cur u = \<lfloor>f\<rfloor>" "0 \<le> \<lfloor>f\<rfloor>" "\<lfloor>f\<rfloor> \<le> MaxWorkers p - cur"
      using potentialAdditional_floor [OF fits assms(2) _ assms(3,4)] g by blast
    have mx: "MaxWorkers p \<le> 2147483647" using assms(1) by (simp add: config_ok_def)
    have "additional p qLen cur u = min (MaxWorkers p - cur) (max 1 \<lfloor>f\<rfloor>)"
      using additional_clamp(2) [OF rf(3,4,5) assms(4) _ mx] g by simp
    then have t: "tick_added p qLen cur u = min (MaxWorkers p - cur) (max 1 \<lfloor>f\<rfloor>)"
      using g by (simp add: tick_added_def scale_up_def)
    have "if QueueSize p = thresholdCount p then r = 1
          else f64_div (of_int (qLen - thresholdCount p))
                 (of_int (QueueSize p - thresholdCount p)) = Some r"
      using rf(1) excess_eq [OF fits assms(2,3)] maxExcess_eq [OF fits]
      by (auto simp: ratio_def f64_of_int32_def)
    with rf(2) t show ?thesis by blast
  qed
qed

text \<open>
  Witness for C3, the scenario of the specification: \<open>minWorkers = 2\<close>, \<open>maxWorkers = 5\<close>,
  capacity 10, threshold 50 percent. With \<open>qLen = 10\<close> and \<open>cur = 2\<close> the tick adds 3
  workers, which brings the count to 5; with \<open>qLen = 4\<close>, below the threshold count 5, it
  adds none.
\<close>

theorem tick_added_rounded_formula_witness:
  "config_ok (pool (NewAutoScaleWorkerPool False 2 5 10 50 5000000000
      \<lparr> chan_buf = ([] :: nat list), chan_cap = 0, chan_closed = False \<rparr>))
   \<and> (0::int) \<le> 10
   \<and> 10 \<le> QueueSize (pool (NewAutoScaleWorkerPool False 2 5 10 50 5000000000
      \<lparr> chan_buf = ([] :: nat list), chan_cap = 0, chan_closed = False \<rparr>))
   \<and> (0::int) \<le> 2
   \<and> thresholdCount (pool (NewAutoScaleWorkerPool False 2 5 10 50 5000000000
      \<lparr> chan_buf = ([] :: nat list), chan_cap = 0, chan_closed = False \<rparr>)) = 5
   \<and> tick_added (pool (NewAutoScaleWorkerPool False 2 5 10 50 5000000000
      \<lparr> chan_buf = ([] :: nat list), chan_cap = 0, chan_closed = False \<rparr>)) 10 2 0 = 3
   \<and> i32 (2 + 3) = 5
   \<and> tick_added (pool (NewAutoScaleWorkerPool False 2 5 10 50 5000000000
      \<lparr> chan_buf = ([] :: nat list), chan_cap = 0, chan_closed = False \<rparr>)) 4 2 0 = 0"
proof -
  define p where "p = pool (NewAutoScaleWorkerPool False 2 5 10 50 5000000000
      \<lparr> chan_buf = ([] :: nat list), chan_cap = 0, chan_closed = False \<rparr>)"
  have fields: "QueueSize p = 10" "ScaleThreshold p = 50" "MaxWorkers p = 5" "MinWorkers p = 2"
    by (simp_all add: p_def New_simps)
  have ok: "config_ok p" by (simp add: config_ok_def fields)
  have h: "(0::int) \<le> 10" "10 \<le> QueueSize p" "(0::int) \<le> 2" "(0::int) \<le> 4" "4 \<le> QueueSize p"
    by (simp_all add: fields)
  note t = tick_added_rounded_formula [OF ok h(1,2,3), of 0]
  from t have tc: "thresholdCount p = 5" by (simp add: fields)
  from t tc obtain r f where rf: "f64_div (of_int (10 - 5)) (of_int (10 - 5)) = Some r"
    "f64_mul r (of_int (5 - 2)) = Some f"
    "tick_added p 10 2 0 = min (5 - 2) (max 1 \<lfloor>f\<rfloor>)"
    by (auto simp: fields)
  have "f64_div (of_int (10 - 5)) (of_int (10 - 5)) = Some 1"
    using f64_round_int [of 1] by (simp add: f64_div_def)
  with rf(1) have r: "r = 1" by simp
  have "f64_mul 1 (of_int (5 - 2)) = Some 3"
    using f64_round_int [of 3] by (simp add: f64_mul_def)
  with rf(2) r have f: "f = 3" by simp
  from rf(3) f have a: "tick_added p 10 2 0 = 3" by simp
  from tick_added_rounded_formula [OF ok h(4,5,3), of 0] tc
  have b: "tick_added p 4 2 0 = 0" by simp
  have c: "i32 (2 + 3) = 5" by (simp add: i32_def)
  from ok h tc a b c show ?thesis unfolding p_def by blast
qed

text \<open>
  C3 as stated, with the floor of the exact product, fails. Capacity 20, threshold 50
  percent, \<open>maxWorkers = 100\<close>, \<open>qLen = 17\<close>, \<open>cur = 10\<close>: the exact ratio is \<open>7/10\<close> and the
  exact product 63, but the \<^verbatim>\<open>float64\<close> nearest to \<open>7/10\<close> is below it, its product with 90
  rounds to a number below 63, and the tick adds 62 workers.
\<close>

theorem tick_added_below_exact_floor:
  "tick_added (pool (NewAutoScaleWorkerPool False 10 100 20 50 5000000000
      \<lparr> chan_buf = ([] :: nat list), chan_cap = 0, chan_closed = False \<rparr>)) 17 10 0 = 62
   \<and> spec_added (pool (NewAutoScaleWorkerPool False 10 100 20 50 5000000000
      \<lparr> chan_buf = ([] :: nat list), chan_cap = 0, chan_closed = False \<rparr>)) 17 10 = 63"
proof -
  have r: "f64_round (7 / 10) = Some (3152519739159347 / 4503599627370496)"
    using f64_round_at [of "7 / 10" "- 1" 6305039478318694]
    by (simp add: rne_def power_int_def Let_def floor_numeral_div)
  have f: "f64_round (3152519739159347 / 4503599627370496 * 90) = Some (8866461766385663 / 140737488355328)"
    using f64_round_at [of "3152519739159347 / 4503599627370496 * 90" 5 8866461766385663]
    by (simp add: rne_def power_int_def Let_def floor_numeral_div)
  show ?thesis
    using r f
    by (simp add: NewAutoScaleWorkerPool_def DefaultMinWorkers_def DefaultMinQueueSize_def
        DefaultIdleTimeout_def Let_def tick_added_def scale_up_def additional_def
        potentialAdditional_def ratio_def maxExcess_def excess_def thresholdCount_def
        i32_def signed_divide_int_def f64_div_def f64_mul_def f64_of_int32_def int32_of_f64_def
        is_int32_def spec_added_def spec_ratio_def spec_thresholdCount_def floor_numeral_div)
qed

section \<open>Invariants of the runs\<close>

lemma live_Nil [simp]: "live [] = 0"
  by (simp add: live_def)

lemma live_Cons [simp]: "live (w # ws) = (if exited w then 0 else 1) + live ws"
  by (simp add: live_def)

lemma live_append [simp]: "live (ws @ vs) = live ws + live vs"
  by (simp add: live_def)

lemma live_replicate_Spawned [simp]: "live (replicate n Spawned) = int n"
  by (induction n) simp_all

lemma live_update:
  "i < length ws \<Longrightarrow>
   live (ws[i := w]) = live ws - (if exited (ws ! i) then 0 else 1) + (if exited w then 0 else 1)"
proof (induction ws arbitrary: i)
  case Nil
  then show ?case by simp
next
  case (Cons a ws)
  then show ?case by (cases i) simp_all
qed

lemma live_nonneg: "0 \<le> live ws"
  by (simp add: live_def)

lemma live_pos: "i < length ws \<Longrightarrow> \<not> exited (ws ! i) \<Longrightarrow> 1 \<le> live ws"
proof (induction ws arbitrary: i)
  case Nil
  then show ?case by simp
next
  case (Cons a ws)
  show ?case
  proof (cases i)
    case 0
    with Cons.prems show ?thesis using live_nonneg [of ws] by simp
  next
    case (Suc j)
    with Cons.prems Cons.IH [of j] show ?thesis by simp
  qed
qed

lemma idle_returning_Nil [simp]: "idle_returning [] = 0"
  by (simp add: idle_returning_def)

lemma idle_returning_Cons [simp]:
  "idle_returning (w # ws) = (if idle_leaving w then 1 else 0) + idle_returning ws"
  by (simp add: idle_returning_def)

lemma idle_returning_append [simp]:
  "idle_returning (ws @ vs) = idle_returning ws + idle_returning vs"
  by (simp add: idle_returning_def)

lemma idle_returning_replicate_Spawned [simp]: "idle_returning (replicate n Spawned) = 0"
  by (induction n) simp_all

lemma idle_returning_nonneg: "0 \<le> idle_returning ws"
  by (simp add: idle_returning_def)

lemma idle_returning_update:
  "i < length ws \<Longrightarrow>
   idle_returning (ws[i := w]) =
     idle_returning ws - (if idle_leaving (ws ! i) then 1 else 0) + (if idle_leaving w then 1 else 0)"
proof (induction ws arbitrary: i)
  case Nil
  then show ?case by simp
next
  case (Cons a ws)
  then show ?case by (cases i) simp_all
qed

lemma config_int32_pool_update [simp]:
  "config_int32 (p \<lparr> Queue := q \<rparr>) = config_int32 p"
  "config_int32 (p \<lparr> InputChan := c \<rparr>) = config_int32 p"
  "config_int32 (p \<lparr> CurrentWorkers := n \<rparr>) = config_int32 p"
  "config_int32 (p \<lparr> WG := g \<rparr>) = config_int32 p"
  "config_int32 (p \<lparr> Ctx_done := b \<rparr>) = config_int32 p"
  by (simp_all add: config_int32_def)

lemma counter_inv_decrement:
  assumes "counter_inv s" "i < length (workers s)" "workers s ! i = Returning r"
  shows "i32 (CurrentWorkers (pool s) - 1) = CurrentWorkers (pool s) - 1"
proof -
  have l1: "1 \<le> live (workers s)" using live_pos [OF assms(2)] assms(3) by simp
  have mx: "MaxWorkers (pool s) \<le> 2147483647" "MinWorkers (pool s) \<le> 2147483647"
    using assms(1) by (simp_all add: counter_inv_def config_int32_def)
  have eq: "CurrentWorkers (pool s) + started (scaler s) = live (workers s)"
    using assms(1) by (simp add: counter_inv_def)
  have lo: "- 2147483648 \<le> CurrentWorkers (pool s) - 1"
    using assms(1) l1 eq mx by (cases "scaler s") (auto simp: counter_inv_def)
  have "0 \<le> reserved (scaler s)"
    using assms(1) by (cases "scaler s") (auto simp: counter_inv_def)
  moreover have "CurrentWorkers (pool s) + reserved (scaler s)
      \<le> max (MinWorkers (pool s)) (MaxWorkers (pool s))"
    using assms(1) by (simp add: counter_inv_def)
  ultimately have hi: "CurrentWorkers (pool s) - 1 \<le> 2147483647"
    using mx by linarith
  show ?thesis using lo hi by (rule i32_id')
qed

lemma counter_inv_add:
  assumes "counter_inv s" "scaler s = Spawning a n"
  shows "i32 (CurrentWorkers (pool s) + a) = CurrentWorkers (pool s) + a" and "1 \<le> a"
proof -
  have mx: "MaxWorkers (pool s) \<le> 2147483647" "MinWorkers (pool s) \<le> 2147483647"
    using assms(1) by (simp_all add: counter_inv_def config_int32_def)
  have a: "1 \<le> a" "int n \<le> a"
    using assms by (simp_all add: counter_inv_def)
  then show "1 \<le> a" by simp
  have "CurrentWorkers (pool s) + (a - int n) = live (workers s)"
    using assms by (simp add: counter_inv_def)
  then have "0 \<le> CurrentWorkers (pool s) + a"
    using live_nonneg [of "workers s"] a by linarith
  moreover have "CurrentWorkers (pool s) + a \<le> max (MinWorkers (pool s)) (MaxWorkers (pool s))"
    using assms by (simp add: counter_inv_def)
  ultimately show "i32 (CurrentWorkers (pool s) + a) = CurrentWorkers (pool s) + a"
    using mx by (intro i32_id') simp_all
qed

lemma counter_inv_worker:
  assumes "counter_inv s" "worker s i e = Some s'"
  shows "counter_inv s'"
proof (cases e)
  case Begins
  with assms show ?thesis
    by (auto simp: counter_inv_def set_worker_def live_update split: if_splits)
next
  case RecvPayload
  with assms show ?thesis
    by (auto simp: counter_inv_def set_worker_def live_update
        split: if_splits worker_state.splits list.splits)
next
  case RecvClosed
  with assms show ?thesis
    by (auto simp: counter_inv_def set_worker_def live_update
        split: if_splits worker_state.splits)
next
  case ResetsTimer
  with assms show ?thesis
    by (auto simp: counter_inv_def set_worker_def live_update
        split: if_splits worker_state.splits)
next
  case CallsWorkFunc
  with assms show ?thesis
    by (auto simp: counter_inv_def set_worker_def live_update
        split: if_splits worker_state.splits)
next
  case WorkFuncReturns
  with assms show ?thesis
    by (auto simp: counter_inv_def set_worker_def live_update
        split: if_splits worker_state.splits)
next
  case TimerFires
  with assms show ?thesis
    by (auto simp: counter_inv_def set_worker_def live_update
        split: if_splits worker_state.splits)
next
  case SeesCtxDone
  with assms show ?thesis
    by (auto simp: counter_inv_def set_worker_def live_update
        split: if_splits worker_state.splits)
next
  case RunsDeferred
  from assms(2) RunsDeferred obtain r where i: "i < length (workers s)"
    and w: "workers s ! i = Returning r"
    and s': "s' = (set_worker s i (Exited r))
                     \<lparr> pool := (pool s) \<lparr> CurrentWorkers := i32 (CurrentWorkers (pool s) - 1),
                                          WG := WG (pool s) - 1 \<rparr> \<rparr>"
    by (auto split: if_splits worker_state.splits)
  have l': "live (workers s') = live (workers s) - 1"
    using i w by (simp add: s' set_worker_def live_update)
  have c: "i32 (CurrentWorkers (pool s) - 1) = CurrentWorkers (pool s) - 1"
    by (rule counter_inv_decrement [OF assms(1) i w])
  show ?thesis
    using assms(1) l' c
    by (simp add: counter_inv_def s' set_worker_def)
qed

lemma counter_inv_readChan:
  assumes "counter_inv s" "readChan s e = Some s'"
  shows "counter_inv s'"
proof (cases e)
  case RecvData
  with assms show ?thesis
    by (auto simp: counter_inv_def split: bridge_state.splits list.splits)
next
  case InputClosed
  with assms show ?thesis
    by (auto simp: counter_inv_def split: if_splits)
next
  case OuterCtxDone
  with assms show ?thesis
    by (auto simp: counter_inv_def split: if_splits)
next
  case SendQueue
  with assms show ?thesis
    by (auto simp: counter_inv_def split: bridge_state.splits if_splits)
next
  case InnerCtxDone
  with assms show ?thesis
    by (auto simp: counter_inv_def split: bridge_state.splits if_splits)
qed

lemma counter_inv_Start:
  assumes "counter_inv s" "Start s e = Some s'"
  shows "counter_inv s'"
proof (cases e)
  case TickReadLen
  from assms(2) TickReadLen have sc: "scaler s = AwaitTick"
    and s': "s' = s \<lparr> scaler := HaveLen (i32 (int (length (chan_buf (Queue (pool s)))))) \<rparr>"
    by (auto split: if_splits)
  have q: "1 \<le> QueueSize (pool s)" "QueueSize (pool s) \<le> 2147483647"
    using assms(1) by (simp_all add: counter_inv_def config_int32_def)
  have "length (chan_buf (Queue (pool s))) \<le> nat (QueueSize (pool s))"
    using assms(1) by (simp add: counter_inv_def)
  then have len: "int (length (chan_buf (Queue (pool s)))) \<le> QueueSize (pool s)"
    using q(1) by linarith
  then have "i32 (int (length (chan_buf (Queue (pool s))))) = int (length (chan_buf (Queue (pool s))))"
    using q(2) by (intro i32_id') simp_all
  with assms(1) len show ?thesis
    by (simp add: counter_inv_def s' sc)
next
  case (TickLoadWorkers u)
  from assms(2) TickLoadWorkers obtain qLen where sc: "scaler s = HaveLen qLen"
    by (auto split: scaler_state.splits)
  have ok: "config_int32 (pool s)" using assms(1) by (simp add: counter_inv_def)
  have q: "0 \<le> qLen" "qLen \<le> QueueSize (pool s)"
    using assms(1) sc by (simp_all add: counter_inv_def)
  have cur: "0 \<le> CurrentWorkers (pool s)"
    using assms(1) sc live_nonneg [of "workers s"] by (simp add: counter_inv_def)
  show ?thesis
  proof (cases "scale_up (pool s) qLen (CurrentWorkers (pool s))")
    case False
    with assms TickLoadWorkers sc show ?thesis
      by (auto simp: counter_inv_def Let_def)
  next
    case True
    then have g: "thresholdCount (pool s) \<le> qLen" "CurrentWorkers (pool s) < MaxWorkers (pool s)"
      by (simp_all add: scale_up_def)
    define a where "a = additional (pool s) qLen (CurrentWorkers (pool s)) u"
    have a: "1 \<le> a" "a \<le> MaxWorkers (pool s) - CurrentWorkers (pool s)"
      unfolding a_def using additional_bounds_int32 [OF ok q(1) g(1) q(2) cur g(2), of u] by simp_all
    from assms(2) TickLoadWorkers sc True
    have s': "s' = s \<lparr> scaler := Spawning a (nat a) \<rparr>"
      by (simp add: Let_def a_def)
    show ?thesis
      using assms(1) a cur sc by (simp add: counter_inv_def s')
  qed
next
  case TickGo
  from assms(2) TickGo obtain a n where sc: "scaler s = Spawning a (Suc n)"
    and s': "s' = s \<lparr> scaler := Spawning a n,
                    workers := workers s @ [Spawned],
                    pool := (pool s) \<lparr> WG := WG (pool s) + 1 \<rparr> \<rparr>"
    by (auto split: scaler_state.splits nat.splits)
  show ?thesis
    using assms(1) by (simp add: counter_inv_def s' sc)
next
  case TickAddWorkers
  from assms(2) TickAddWorkers obtain a where sc: "scaler s = Spawning a 0"
    and s': "s' = s \<lparr> scaler := AwaitTick,
                    pool := (pool s) \<lparr> CurrentWorkers := i32 (CurrentWorkers (pool s) + a) \<rparr> \<rparr>"
    by (auto split: scaler_state.splits nat.splits)
  have "i32 (CurrentWorkers (pool s) + a) = CurrentWorkers (pool s) + a"
    by (rule counter_inv_add(1) [OF assms(1) sc])
  then show ?thesis
    using assms(1) by (simp add: counter_inv_def s' sc)
next
  case TickerCtxDone
  with assms show ?thesis
    by (auto simp: counter_inv_def split: if_splits)
next
  case CloseQueue
  with assms show ?thesis
    by (auto simp: counter_inv_def split: bridge_state.splits if_splits)
next
  case WaitReturns
  with assms show ?thesis
    by (auto simp: counter_inv_def split: if_splits)
qed

lemma counter_inv_step:
  assumes "counter_inv s" "step s a = Some s'"
  shows "counter_inv s'"
proof (cases a)
  case StopCalled
  with assms show ?thesis by (auto simp: counter_inv_def Stop_def)
next
  case (TimePasses d)
  with assms show ?thesis by (auto simp: counter_inv_def split: if_splits)
next
  case (Worker i e)
  with assms show ?thesis by (auto intro: counter_inv_worker)
next
  case (ReadChan e)
  with assms show ?thesis by (auto intro: counter_inv_readChan)
next
  case (StartStep e)
  with assms show ?thesis by (auto intro: counter_inv_Start)
qed

lemma counter_inv_run:
  assumes "counter_inv s" "run s as = Some s'"
  shows "counter_inv s'"
  using assms
proof (induction as arbitrary: s)
  case Nil
  then show ?case by simp
next
  case (Cons a as)
  then show ?case
    by (auto split: option.splits intro: counter_inv_step)
qed

lemma counter_inv_New:
  assumes "config_int32 (pool (NewAutoScaleWorkerPool ctx mn mx qs st it input))"
    and "mn \<le> 2147483647"
  shows "counter_inv (NewAutoScaleWorkerPool ctx mn mx qs st it input)"
  using assms
  by (simp add: counter_inv_def NewAutoScaleWorkerPool_def DefaultMinWorkers_def
      DefaultMinQueueSize_def DefaultIdleTimeout_def Let_def)

lemma close_inv_step:
  assumes "close_inv s" "step s a = Some s'"
  shows "close_inv s'"
proof (cases a)
  case StopCalled
  with assms show ?thesis by (auto simp: close_inv_def Stop_def)
next
  case (TimePasses d)
  with assms show ?thesis by (auto simp: close_inv_def split: if_splits)
next
  case (Worker i e)
  with assms show ?thesis
    by (cases e)
      (auto simp: close_inv_def set_worker_def split: if_splits worker_state.splits list.splits)
next
  case (ReadChan e)
  with assms show ?thesis
    by (cases e) (auto simp: close_inv_def split: if_splits bridge_state.splits list.splits)
next
  case (StartStep e)
  with assms show ?thesis
    by (cases e)
      (auto simp: close_inv_def Let_def
        split: if_splits bridge_state.splits scaler_state.splits nat.splits)
qed

lemma close_inv_run:
  assumes "close_inv s" "run s as = Some s'"
  shows "close_inv s'"
  using assms
proof (induction as arbitrary: s)
  case Nil
  then show ?case by simp
next
  case (Cons a as)
  then show ?case
    by (auto split: option.splits intro: close_inv_step)
qed

lemma close_inv_New: "close_inv (NewAutoScaleWorkerPool ctx mn mx qs st it input)"
  by (simp add: close_inv_def NewAutoScaleWorkerPool_def Let_def)

lemma same_config_refl: "same_config p p"
  by (simp add: same_config_def)

lemma same_config_trans: "same_config p p' \<Longrightarrow> same_config p' p'' \<Longrightarrow> same_config p p''"
  by (simp add: same_config_def)

lemma same_config_worker:
  "worker s i e = Some s' \<Longrightarrow> same_config (pool s) (pool s')"
  by (cases e)
    (auto simp: same_config_def set_worker_def
      split: if_splits worker_state.splits list.splits)

lemma same_config_readChan:
  "readChan s e = Some s' \<Longrightarrow> same_config (pool s) (pool s')"
  by (cases e) (auto simp: same_config_def split: if_splits bridge_state.splits list.splits)

lemma same_config_Start:
  "Start s e = Some s' \<Longrightarrow> same_config (pool s) (pool s')"
  by (cases e)
    (auto simp: same_config_def Let_def
      split: if_splits bridge_state.splits scaler_state.splits nat.splits option.splits)

lemma same_config_step:
  assumes "step s a = Some s'"
  shows "same_config (pool s) (pool s')"
proof (cases a)
  case StopCalled
  with assms show ?thesis by (auto simp: same_config_def Stop_def)
next
  case (TimePasses d)
  with assms show ?thesis by (auto simp: same_config_def split: if_splits)
next
  case (Worker i e)
  with assms show ?thesis by (auto intro: same_config_worker)
next
  case (ReadChan e)
  with assms show ?thesis by (auto intro: same_config_readChan)
next
  case (StartStep e)
  with assms show ?thesis by (auto intro: same_config_Start)
qed

lemma same_config_run:
  "run s as = Some s' \<Longrightarrow> same_config (pool s) (pool s')"
proof (induction as arbitrary: s)
  case Nil
  then show ?case by (simp add: same_config_refl)
next
  case (Cons a as)
  then show ?case
    by (auto split: option.splits intro: same_config_trans same_config_step)
qed

lemma closes_only_CloseQueue:
  assumes "step s a = Some s'" "\<not> chan_closed (Queue (pool s))" "chan_closed (Queue (pool s'))"
  shows "a = StartStep CloseQueue \<and> (\<exists>r. bridge s = AfterReadChan r)"
proof (cases a)
  case StopCalled
  with assms show ?thesis by (auto simp: Stop_def)
next
  case (TimePasses d)
  with assms show ?thesis by (auto split: if_splits)
next
  case (Worker i e)
  with assms show ?thesis
    by (cases e) (auto simp: set_worker_def split: if_splits worker_state.splits list.splits)
next
  case (ReadChan e)
  with assms show ?thesis
    by (cases e) (auto split: if_splits bridge_state.splits list.splits)
next
  case (StartStep e)
  with assms show ?thesis
    by (cases e)
      (auto simp: Let_def
        split: if_splits bridge_state.splits scaler_state.splits nat.splits option.splits)
qed

lemma New_config_int32:
  assumes "maxWorkers \<le> 2147483647" "queueSize \<le> 2147483647"
  shows "config_int32 (pool (NewAutoScaleWorkerPool ctx minWorkers maxWorkers queueSize
           scaleThreshold idleTimeout input))"
  using assms
  by (simp add: config_int32_def NewAutoScaleWorkerPool_def DefaultMinWorkers_def
      DefaultMinQueueSize_def Let_def)

lemma counter_inv_New_bounds:
  assumes "minWorkers \<le> 2147483647" "maxWorkers \<le> 2147483647" "queueSize \<le> 2147483647"
  shows "counter_inv (NewAutoScaleWorkerPool ctx minWorkers maxWorkers queueSize scaleThreshold
           idleTimeout input)"
  using New_config_int32 [OF assms(2,3)] assms(1) by (rule counter_inv_New)

lemma counter_inv_reachable:
  assumes "minWorkers \<le> 2147483647" "maxWorkers \<le> 2147483647" "queueSize \<le> 2147483647"
    and "run (NewAutoScaleWorkerPool ctx minWorkers maxWorkers queueSize scaleThreshold
           idleTimeout input) acts = Some s"
  shows "counter_inv s"
  using counter_inv_New_bounds [OF assms(1,2,3)] assms(4) by (rule counter_inv_run)

lemmas tick_simps = scale_up_def additional_def potentialAdditional_def ratio_def maxExcess_def
  excess_def thresholdCount_def i32_def signed_divide_int_def f64_div_def f64_mul_def
  f64_of_int32_def int32_of_f64_def is_int32_def f64_round_def

subsection \<open>The floor, in runs whose idle exits do not overlap\<close>

lemma list_all_nth: "list_all P xs \<Longrightarrow> i < length xs \<Longrightarrow> P (xs ! i)"
  by (simp add: list_all_length)

lemma floor_inv_worker:
  assumes "floor_inv s" "counter_inv s" "exits_apart s" "exits_apart s'"
    and "worker s i e = Some s'"
  shows "floor_inv s'"
proof (cases e)
  case Begins
  with assms(1,5) show ?thesis
    by (auto simp: floor_inv_def set_worker_def idle_returning_update split: if_splits)
next
  case RecvPayload
  with assms(1,5) show ?thesis
    by (auto simp: floor_inv_def set_worker_def idle_returning_update
        split: if_splits worker_state.splits list.splits)
next
  case RecvClosed
  with assms(1,5) show ?thesis
    by (auto simp: floor_inv_def set_worker_def idle_returning_update
        split: if_splits worker_state.splits)
next
  case ResetsTimer
  with assms(1,5) show ?thesis
    by (auto simp: floor_inv_def set_worker_def idle_returning_update
        split: if_splits worker_state.splits)
next
  case CallsWorkFunc
  with assms(1,5) show ?thesis
    by (auto simp: floor_inv_def set_worker_def idle_returning_update
        split: if_splits worker_state.splits)
next
  case WorkFuncReturns
  with assms(1,5) show ?thesis
    by (auto simp: floor_inv_def set_worker_def idle_returning_update
        split: if_splits worker_state.splits)
next
  case TimerFires
  from assms(5) TimerFires obtain t where i: "i < length (workers s)"
    and w: "workers s ! i = Waiting t"
    by (auto split: if_splits worker_state.splits)
  show ?thesis
  proof (cases "CurrentWorkers (pool s) > MinWorkers (pool s)")
    case True
    with assms(5) TimerFires i w have s': "s' = set_worker s i (Returning IdleExit)"
      by (auto split: if_splits)
    have "idle_returning (workers s') = idle_returning (workers s) + 1"
      using i w by (simp add: s' set_worker_def idle_returning_update)
    moreover have "idle_returning (workers s') \<le> 1"
      using assms(4) by (simp add: exits_apart_def)
    ultimately have "idle_returning (workers s') = 1"
      using idle_returning_nonneg [of "workers s"] by linarith
    with True show ?thesis by (simp add: floor_inv_def s' set_worker_def)
  next
    case False
    with assms(5) TimerFires i w
    have s': "s' = set_worker s i (Waiting (clock s + IdleTimeout (pool s)))"
      by (auto split: if_splits)
    show ?thesis
      using assms(1) i w by (simp add: floor_inv_def s' set_worker_def idle_returning_update)
  qed
next
  case SeesCtxDone
  with assms(1,5) show ?thesis
    by (auto simp: floor_inv_def set_worker_def idle_returning_update
        split: if_splits worker_state.splits)
next
  case RunsDeferred
  from assms(5) RunsDeferred obtain r where i: "i < length (workers s)"
    and w: "workers s ! i = Returning r"
    and s': "s' = (set_worker s i (Exited r))
                     \<lparr> pool := (pool s) \<lparr> CurrentWorkers := i32 (CurrentWorkers (pool s) - 1),
                                          WG := WG (pool s) - 1 \<rparr> \<rparr>"
    by (auto split: if_splits worker_state.splits)
  have "list_all (\<lambda>w. \<not> shutdown_exit w) (workers s)"
    using assms(3) by (simp add: exits_apart_def)
  from list_all_nth [OF this i] w have r: "r = IdleExit" by (cases r) simp_all
  have c: "i32 (CurrentWorkers (pool s) - 1) = CurrentWorkers (pool s) - 1"
    by (rule counter_inv_decrement [OF assms(2) i w])
  have "idle_returning (workers s') = idle_returning (workers s) - 1"
    using i w r by (simp add: s' set_worker_def idle_returning_update)
  with assms(1) c show ?thesis by (simp add: floor_inv_def s')
qed

lemma floor_inv_step:
  assumes "floor_inv s" "counter_inv s" "exits_apart s" "exits_apart s'"
    and "step s a = Some s'"
  shows "floor_inv s'"
proof (cases a)
  case StopCalled
  with assms show ?thesis by (auto simp: floor_inv_def Stop_def)
next
  case (TimePasses d)
  with assms show ?thesis by (auto simp: floor_inv_def split: if_splits)
next
  case (Worker i e)
  with assms show ?thesis by (auto intro: floor_inv_worker)
next
  case (ReadChan e)
  with assms(1,5) show ?thesis
    by (cases e) (auto simp: floor_inv_def split: if_splits bridge_state.splits list.splits)
next
  case (StartStep e)
  show ?thesis
  proof (cases e)
    case TickAddWorkers
    from assms(5) StartStep TickAddWorkers obtain b where sc: "scaler s = Spawning b 0"
      and s': "s' = s \<lparr> scaler := AwaitTick,
                    pool := (pool s) \<lparr> CurrentWorkers := i32 (CurrentWorkers (pool s) + b) \<rparr> \<rparr>"
      by (auto split: scaler_state.splits nat.splits)
    from counter_inv_add [OF assms(2) sc] assms(1) show ?thesis
      by (simp add: floor_inv_def s')
  next
    case TickReadLen
    with assms(1,5) StartStep show ?thesis
      by (auto simp: floor_inv_def split: if_splits)
  next
    case (TickLoadWorkers u)
    with assms(1,5) StartStep show ?thesis
      by (auto simp: floor_inv_def Let_def split: scaler_state.splits if_splits)
  next
    case TickGo
    with assms(1,5) StartStep show ?thesis
      by (auto simp: floor_inv_def split: scaler_state.splits nat.splits)
  next
    case TickerCtxDone
    with assms(1,5) StartStep show ?thesis
      by (auto simp: floor_inv_def split: if_splits)
  next
    case CloseQueue
    with assms(1,5) StartStep show ?thesis
      by (auto simp: floor_inv_def split: bridge_state.splits if_splits)
  next
    case WaitReturns
    with assms(1,5) StartStep show ?thesis
      by (auto simp: floor_inv_def split: if_splits)
  qed
qed

lemma list_all_states_hd: "list_all P (states s as) \<Longrightarrow> P s"
  by (cases as) simp_all

lemma floor_inv_run:
  assumes "floor_inv s" "counter_inv s" "list_all exits_apart (states s as)"
    and "run s as = Some s'"
  shows "floor_inv s'"
  using assms
proof (induction as arbitrary: s)
  case Nil
  then show ?case by simp
next
  case (Cons a as)
  from Cons.prems(4) obtain s1 where st: "step s a = Some s1" and r: "run s1 as = Some s'"
    by (auto split: option.splits)
  from Cons.prems(3) st have e: "exits_apart s" and l: "list_all exits_apart (states s1 as)"
    by simp_all
  have e1: "exits_apart s1" by (rule list_all_states_hd [OF l])
  have "floor_inv s1" by (rule floor_inv_step [OF Cons.prems(1,2) e e1 st])
  moreover have "counter_inv s1" by (rule counter_inv_step [OF Cons.prems(2) st])
  ultimately show ?case using l r by (rule Cons.IH)
qed

lemma floor_inv_New: "floor_inv (NewAutoScaleWorkerPool ctx mn mx qs st it input)"
  by (simp add: floor_inv_def NewAutoScaleWorkerPool_def Let_def)

subsection \<open>Schedules\<close>

lemma run_append:
  "run s (as @ bs) = (case run s as of None \<Rightarrow> None | Some s' \<Rightarrow> run s' bs)"
  by (induction as arbitrary: s) (simp_all split: option.splits)


lemma run_TickGo:
  "run \<lparr> pool = \<lparr> Ctx_done = cd, MinWorkers = mn, MaxWorkers = mx, CurrentWorkers = cw,
                  QueueSize = qs, ScaleThreshold = st, IdleTimeout = it,
                  InputChan = inp, WG = g, Queue = q \<rparr>,
          workers = ws, bridge = b, scaler = Spawning a n, clock = clk, invoked = ivk \<rparr>
     (replicate n (StartStep TickGo))
   = Some \<lparr> pool = \<lparr> Ctx_done = cd, MinWorkers = mn, MaxWorkers = mx, CurrentWorkers = cw,
                  QueueSize = qs, ScaleThreshold = st, IdleTimeout = it,
                  InputChan = inp, WG = g + int n, Queue = q \<rparr>,
          workers = ws @ replicate n Spawned, bridge = b, scaler = Spawning a 0, clock = clk,
          invoked = ivk \<rparr>"
proof (induction n arbitrary: g ws)
  case 0
  then show ?case by simp
next
  case (Suc n)
  show ?case
    using Suc.IH [of "g + 1" "ws @ [Spawned]"]
    by (simp add: replicate_app_Cons_same)
qed

lemma run_tick:
  assumes "scaler s = AwaitTick"
    and "scale_up (pool s) (i32 (int (length (chan_buf (Queue (pool s)))))) (CurrentWorkers (pool s))"
    and "a = additional (pool s) (i32 (int (length (chan_buf (Queue (pool s))))))
               (CurrentWorkers (pool s)) u"
  shows "run s (tick u (nat a)) =
    Some (s \<lparr> workers := workers s @ replicate (nat a) Spawned,
              pool := (pool s) \<lparr> WG := WG (pool s) + int (nat a),
                                 CurrentWorkers := i32 (CurrentWorkers (pool s) + a) \<rparr> \<rparr>)"
proof -
  obtain p ws b sc clk ivk where s: "s = \<lparr> pool = p, workers = ws, bridge = b, scaler = sc,
      clock = clk, invoked = ivk \<rparr>"
    by (cases s) auto
  obtain cd mn mx cw qs st it inp g q where p: "p = \<lparr> Ctx_done = cd, MinWorkers = mn,
      MaxWorkers = mx, CurrentWorkers = cw, QueueSize = qs, ScaleThreshold = st,
      IdleTimeout = it, InputChan = inp, WG = g, Queue = q \<rparr>"
    by (cases p) auto
  have sc: "sc = AwaitTick" using assms(1) by (simp add: s)
  have g: "scale_up p (i32 (int (length (chan_buf q)))) cw"
    using assms(2) by (simp add: s p)
  have a: "additional p (i32 (int (length (chan_buf q)))) cw u = a"
    using assms(3) by (simp add: s p)
  have 1: "run s [StartStep TickReadLen, StartStep (TickLoadWorkers u)] =
      Some \<lparr> pool = \<lparr> Ctx_done = cd, MinWorkers = mn, MaxWorkers = mx, CurrentWorkers = cw,
                  QueueSize = qs, ScaleThreshold = st, IdleTimeout = it,
                  InputChan = inp, WG = g, Queue = q \<rparr>,
          workers = ws, bridge = b, scaler = Spawning a (nat a), clock = clk, invoked = ivk \<rparr>"
    using g a by (simp add: s sc p [symmetric]) (simp add: p)
  show ?thesis
    unfolding tick_def run_append 1 option.case run_TickGo
    by (simp add: s p sc)
qed

lemma run_idle_tick:
  assumes "scaler s = AwaitTick"
    and "\<not> scale_up (pool s) (i32 (int (length (chan_buf (Queue (pool s)))))) (CurrentWorkers (pool s))"
  shows "run s (idle_tick u) = Some s"
  using assms by (simp add: idle_tick_def)




lemma reachable_qLen:
  assumes "counter_inv s"
  shows "i32 (int (length (chan_buf (Queue (pool s))))) = int (length (chan_buf (Queue (pool s))))"
    and "int (length (chan_buf (Queue (pool s)))) \<le> QueueSize (pool s)"
proof -
  have q: "1 \<le> QueueSize (pool s)" "QueueSize (pool s) \<le> 2147483647"
    using assms by (simp_all add: counter_inv_def config_int32_def)
  have "length (chan_buf (Queue (pool s))) \<le> nat (QueueSize (pool s))"
    using assms by (simp add: counter_inv_def)
  then show len: "int (length (chan_buf (Queue (pool s)))) \<le> QueueSize (pool s)"
    using q(1) by linarith
  then show "i32 (int (length (chan_buf (Queue (pool s))))) = int (length (chan_buf (Queue (pool s))))"
    using q(2) by (intro i32_id') simp_all
qed

lemma reachable_cur:
  assumes "counter_inv s" "scaler s = AwaitTick"
  shows "0 \<le> CurrentWorkers (pool s)"
  using assms live_nonneg [of "workers s"] by (simp add: counter_inv_def)

text \<open>
  What \<open>tick_added\<close> computes is what a tick of \<^verbatim>\<open>Start\<close> does. In a state of the
  bookkeeping invariant with the ticker goroutine at its select, a tick taken with no
  step of another goroutine in between spawns \<open>tick_added\<close> workers, registers them with
  the wait group and adds them to the counter; when the guard fails it changes nothing.
\<close>

lemma tick_adds_tick_added:
  assumes "counter_inv s" "scaler s = AwaitTick"
    and "a = tick_added (pool s) (int (length (chan_buf (Queue (pool s)))))
               (CurrentWorkers (pool s)) u"
  shows "0 \<le> a"
    and "0 < a \<Longrightarrow> run s (tick u (nat a)) =
      Some (s \<lparr> workers := workers s @ replicate (nat a) Spawned,
                pool := (pool s) \<lparr> WG := WG (pool s) + a,
                                   CurrentWorkers := CurrentWorkers (pool s) + a \<rparr> \<rparr>)"
    and "a = 0 \<Longrightarrow> run s (idle_tick u) = Some s"
proof -
  let ?p = "pool s"
  let ?cur = "CurrentWorkers ?p"
  let ?len = "int (length (chan_buf (Queue ?p)))"
  have ci: "config_int32 ?p" using assms(1) by (simp add: counter_inv_def)
  have mx: "MaxWorkers ?p \<le> 2147483647" using ci by (simp add: config_int32_def)
  have cur: "0 \<le> ?cur" by (rule reachable_cur [OF assms(1,2)])
  have len: "i32 ?len = ?len" "?len \<le> QueueSize ?p"
    by (rule reachable_qLen [OF assms(1)])+
  have ab: "1 \<le> a \<and> a \<le> MaxWorkers ?p - ?cur" if "scale_up ?p ?len ?cur"
    using additional_bounds_int32 [OF ci _ _ len(2) cur, where u = u] that
    by (simp add: assms(3) tick_added_def scale_up_def)
  have z: "a = 0" if "\<not> scale_up ?p ?len ?cur"
    using that by (simp add: assms(3) tick_added_def)
  show "0 \<le> a" using ab z by (cases "scale_up ?p ?len ?cur") simp_all
  show "run s (tick u (nat a)) =
      Some (s \<lparr> workers := workers s @ replicate (nat a) Spawned,
                pool := ?p \<lparr> WG := WG ?p + a, CurrentWorkers := ?cur + a \<rparr> \<rparr>)"
    if "0 < a"
  proof -
    from that z have su: "scale_up ?p (i32 ?len) ?cur" by (auto simp: len(1))
    then have a: "a = additional ?p (i32 ?len) ?cur u"
      by (simp add: assms(3) tick_added_def len(1))
    from su ab have b: "1 \<le> a" "a \<le> MaxWorkers ?p - ?cur" by (simp_all add: len(1))
    have "i32 (?cur + a) = ?cur + a"
      using b cur mx by (intro i32_id') simp_all
    moreover have "int (nat a) = a" using b(1) by simp
    ultimately show ?thesis using run_tick [OF assms(2) su a] by simp
  qed
  show "run s (idle_tick u) = Some s" if "a = 0"
  proof -
    from that ab have "\<not> scale_up ?p (i32 ?len) ?cur" by (auto simp: len(1))
    then show ?thesis by (rule run_idle_tick [OF assms(2)])
  qed
qed

section \<open>Properties of the runs\<close>

text \<open>
  C1, as the code has it. The arguments of the constructor are \<^verbatim>\<open>int32\<close> values. In every
  state that any interleaving of the steps of the workers, of \<^verbatim>\<open>readChan\<close>, of the ticker
  goroutine, of \<^verbatim>\<open>Stop\<close> and of the clock reaches:
  \<^item> if the stored minimum does not exceed the stored maximum, \<open>CurrentWorkers\<close> does not
    exceed \<open>MaxWorkers\<close>;
  \<^item> \<open>CurrentWorkers\<close> is not below \<open>MinWorkers\<close>, when in every state of the run no worker
    has returned at shutdown (queue closed and drained, or context done) and at most
    one worker stands between the idle check of its timer case and its deferred
    decrement;
  \<^item> \<open>CurrentWorkers\<close> plus the workers that the tick in progress has spawned and not yet
    added is the number of workers that have not run their deferred decrement.
  Nothing is said of the runs in which two workers pass the idle check before either
  decrements.
\<close>

theorem CurrentWorkers_bounds:
  fixes input :: "'a chan"
  assumes "is_int32 minWorkers" "is_int32 maxWorkers" "is_int32 queueSize"
    and "run (NewAutoScaleWorkerPool ctx minWorkers maxWorkers queueSize scaleThreshold
           idleTimeout input) acts = Some s"
  shows "(max 1 minWorkers \<le> max 1 maxWorkers \<longrightarrow> CurrentWorkers (pool s) \<le> MaxWorkers (pool s))
    \<and> (list_all exits_apart
          (states (NewAutoScaleWorkerPool ctx minWorkers maxWorkers queueSize scaleThreshold
             idleTimeout input) acts)
        \<longrightarrow> MinWorkers (pool s) \<le> CurrentWorkers (pool s))
    \<and> MaxWorkers (pool s) = max 1 maxWorkers
    \<and> MinWorkers (pool s) = max 1 minWorkers
    \<and> CurrentWorkers (pool s) + started (scaler s) = live (workers s)"
proof -
  let ?s0 = "NewAutoScaleWorkerPool ctx minWorkers maxWorkers queueSize scaleThreshold
           idleTimeout input"
  have b: "minWorkers \<le> 2147483647" "maxWorkers \<le> 2147483647" "queueSize \<le> 2147483647"
    using assms(1,2,3) by (simp_all add: is_int32_def)
  have inv0: "counter_inv ?s0" by (rule counter_inv_New_bounds [OF b])
  have inv: "counter_inv s" using inv0 assms(4) by (rule counter_inv_run)
  have "same_config (pool ?s0) (pool s)" using assms(4) by (rule same_config_run)
  then have cfg: "MaxWorkers (pool s) = max 1 maxWorkers" "MinWorkers (pool s) = max 1 minWorkers"
    by (simp_all add: same_config_def New_simps)
  have res: "0 \<le> reserved (scaler s)"
    using inv by (cases "scaler s") (auto simp: counter_inv_def)
  have up: "CurrentWorkers (pool s) \<le> MaxWorkers (pool s)"
    if "max 1 minWorkers \<le> max 1 maxWorkers"
  proof -
    have "CurrentWorkers (pool s) + reserved (scaler s)
        \<le> max (MinWorkers (pool s)) (MaxWorkers (pool s))"
      using inv by (simp add: counter_inv_def)
    with res that show ?thesis unfolding cfg by linarith
  qed
  have lo: "MinWorkers (pool s) \<le> CurrentWorkers (pool s)"
    if "list_all exits_apart (states ?s0 acts)"
  proof -
    have "floor_inv s" using floor_inv_New inv0 that assms(4) by (rule floor_inv_run)
    with idle_returning_nonneg [of "workers s"] show ?thesis
      by (simp add: floor_inv_def)
  qed
  have "CurrentWorkers (pool s) + started (scaler s) = live (workers s)"
    using inv by (simp add: counter_inv_def)
  with up lo cfg show ?thesis by blast
qed

text \<open>
  Witness for C1: one worker, \<open>maxWorkers = 2\<close>, capacity 1, threshold 1 percent. The
  tick at two seconds, on the empty queue, adds a worker and the counter reaches the
  maximum 2; five seconds later the timer of the new worker fires, it reads 2, above the
  minimum 1, returns and decrements the counter to the minimum.
\<close>

theorem CurrentWorkers_bounds_witness:
  "is_int32 1 \<and> is_int32 2 \<and> is_int32 1
   \<and> run (NewAutoScaleWorkerPool False 1 2 1 1 5000000000
        \<lparr> chan_buf = ([] :: nat list), chan_cap = 0, chan_closed = False \<rparr>)
      [TimePasses 2000000000, StartStep TickReadLen, StartStep (TickLoadWorkers 0), StartStep TickGo,
       StartStep TickAddWorkers, Worker 1 Begins, TimePasses 5000000000, Worker 1 TimerFires,
       Worker 1 RunsDeferred]
     = Some
  \<lparr>pool =
     \<lparr>Ctx_done = False, MinWorkers = 1, MaxWorkers = 2, CurrentWorkers = 1,
        QueueSize = 1, ScaleThreshold = 1, IdleTimeout = 5000000000,
        InputChan = \<lparr>chan_buf = [], chan_cap = 0, chan_closed = False\<rparr>,
        WG = 1, Queue = \<lparr>chan_buf = [], chan_cap = 1, chan_closed = False\<rparr>\<rparr>,
     workers = [Spawned, Exited IdleExit], bridge = InReadChan, scaler = AwaitTick,
     clock = 7000000000, invoked = []\<rparr>
   \<and> max 1 1 \<le> max 1 (2::int)
   \<and> list_all exits_apart
        (states (NewAutoScaleWorkerPool False 1 2 1 1 5000000000
           \<lparr> chan_buf = ([] :: nat list), chan_cap = 0, chan_closed = False \<rparr>)
         [TimePasses 2000000000, StartStep TickReadLen, StartStep (TickLoadWorkers 0), StartStep TickGo,
          StartStep TickAddWorkers, Worker 1 Begins, TimePasses 5000000000, Worker 1 TimerFires,
          Worker 1 RunsDeferred])
   \<and> (1::int) \<le> 2
   \<and> (1::int) \<le> 1
   \<and> (1::int) + started AwaitTick = live [Spawned, Exited IdleExit :: nat worker_state]"
proof -
  have h: "is_int32 1" "is_int32 2" "is_int32 1" "max 1 1 \<le> max 1 (2::int)"
    by (simp_all add: is_int32_def)
  have r: "run (NewAutoScaleWorkerPool False 1 2 1 1 5000000000
        \<lparr> chan_buf = ([] :: nat list), chan_cap = 0, chan_closed = False \<rparr>)
      [TimePasses 2000000000, StartStep TickReadLen, StartStep (TickLoadWorkers 0), StartStep TickGo,
       StartStep TickAddWorkers, Worker 1 Begins, TimePasses 5000000000, Worker 1 TimerFires,
       Worker 1 RunsDeferred]
     = Some
  \<lparr>pool =
     \<lparr>Ctx_done = False, MinWorkers = 1, MaxWorkers = 2, CurrentWorkers = 1,
        QueueSize = 1, ScaleThreshold = 1, IdleTimeout = 5000000000,
        InputChan = \<lparr>chan_buf = [], chan_cap = 0, chan_closed = False\<rparr>,
        WG = 1, Queue = \<lparr>chan_buf = [], chan_cap = 1, chan_closed = False\<rparr>\<rparr>,
     workers = [Spawned, Exited IdleExit], bridge = InReadChan, scaler = AwaitTick,
     clock = 7000000000, invoked = []\<rparr>"
    by (simp add: New_simps tick_simps set_worker_def)
  have a: "list_all exits_apart
        (states (NewAutoScaleWorkerPool False 1 2 1 1 5000000000
           \<lparr> chan_buf = ([] :: nat list), chan_cap = 0, chan_closed = False \<rparr>)
         [TimePasses 2000000000, StartStep TickReadLen, StartStep (TickLoadWorkers 0), StartStep TickGo,
          StartStep TickAddWorkers, Worker 1 Begins, TimePasses 5000000000, Worker 1 TimerFires,
          Worker 1 RunsDeferred])"
    by (simp add: New_simps tick_simps set_worker_def exits_apart_def)
  from CurrentWorkers_bounds [OF h(1,2,3) r] h(4) a
  have "(1::int) \<le> 2" "(1::int) \<le> 1"
    "(1::int) + started AwaitTick = live [Spawned, Exited IdleExit :: nat worker_state]"
    by simp_all
  with h r a show ?thesis by blast
qed

text \<open>
  C1 as stated fails on both sides. With \<open>minWorkers = 5\<close> and \<open>maxWorkers = 2\<close> the
  counter starts at 5, above the stored maximum 2. And with \<open>minWorkers = 1\<close>, once the
  source is closed and the queue drained, the only worker returns and decrements the
  counter to 0, below the stored minimum 1.
\<close>

theorem CurrentWorkers_outside_bounds:
  "CurrentWorkers (pool (NewAutoScaleWorkerPool False 5 2 10 50 5000000000
      \<lparr> chan_buf = ([] :: nat list), chan_cap = 0, chan_closed = False \<rparr>)) = 5
   \<and> MaxWorkers (pool (NewAutoScaleWorkerPool False 5 2 10 50 5000000000
      \<lparr> chan_buf = ([] :: nat list), chan_cap = 0, chan_closed = False \<rparr>)) = 2
   \<and> run (NewAutoScaleWorkerPool False 1 2 1 1 5000000000
      \<lparr> chan_buf = ([] :: nat list), chan_cap = 0, chan_closed = True \<rparr>)
    [ReadChan InputClosed, StartStep CloseQueue, Worker 0 Begins, Worker 0 RecvClosed,
     Worker 0 RunsDeferred]
   = Some
  \<lparr>pool =
     \<lparr>Ctx_done = False, MinWorkers = 1, MaxWorkers = 2, CurrentWorkers = 0,
        QueueSize = 1, ScaleThreshold = 1, IdleTimeout = 5000000000,
        InputChan = \<lparr>chan_buf = [], chan_cap = 0, chan_closed = True\<rparr>,
        WG = 0, Queue = \<lparr>chan_buf = [], chan_cap = 1, chan_closed = True\<rparr>\<rparr>,
     workers = [Exited QueueClosed], bridge = InWait, scaler = AwaitTick,
     clock = 0, invoked = []\<rparr>"
  by (simp add: New_simps set_worker_def i32_def)

text \<open>
  C4, as the code has it. In every reachable state the queue is closed exactly when
  \<^verbatim>\<open>Start\<close> has passed its \<^verbatim>\<open>close(pool.Queue)\<close>; whenever \<^verbatim>\<open>readChan\<close> has returned, for
  whichever of its three reasons (source exhausted, cancellation at the outer select,
  cancellation at the inner select), the next step of \<^verbatim>\<open>Start\<close> closes the queue; and
  no other step of the system closes it.
\<close>

theorem Queue_closed_after_readChan:
  assumes "run (NewAutoScaleWorkerPool ctx minWorkers maxWorkers queueSize scaleThreshold
           idleTimeout input) acts = Some s"
  shows "(chan_closed (Queue (pool s)) \<longleftrightarrow> bridge s = InWait \<or> bridge s = StartDone)
    \<and> (\<forall>r. bridge s = AfterReadChan r \<longrightarrow>
          (\<exists>s'. step s (StartStep CloseQueue) = Some s' \<and> chan_closed (Queue (pool s'))
                \<and> bridge s' = InWait))
    \<and> (\<forall>a s'. step s a = Some s' \<and> \<not> chan_closed (Queue (pool s)) \<and> chan_closed (Queue (pool s'))
          \<longrightarrow> a = StartStep CloseQueue \<and> (\<exists>r. bridge s = AfterReadChan r))"
proof -
  have "close_inv s"
    using close_inv_New assms by (rule close_inv_run)
  then have c: "chan_closed (Queue (pool s)) \<longleftrightarrow> past_close (bridge s)"
    by (simp add: close_inv_def)
  have 1: "chan_closed (Queue (pool s)) \<longleftrightarrow> bridge s = InWait \<or> bridge s = StartDone"
    unfolding c by (cases "bridge s") simp_all
  have 2: "\<exists>s'. step s (StartStep CloseQueue) = Some s' \<and> chan_closed (Queue (pool s'))
                \<and> bridge s' = InWait" if "bridge s = AfterReadChan r" for r
    using that c by simp
  from 1 2 closes_only_CloseQueue [of s] show ?thesis by blast
qed

text \<open>
  Witness for C4: \<^verbatim>\<open>Stop\<close> is called while the source still holds three items;
  \<^verbatim>\<open>readChan\<close> returns at its outer select, and the close of the queue is the next step.
\<close>

theorem Queue_closed_after_readChan_witness:
  "run (NewAutoScaleWorkerPool False 1 2 2 50 5000000000
      \<lparr> chan_buf = [1, 2, 3 :: nat], chan_cap = 0, chan_closed = False \<rparr>)
    [StopCalled, ReadChan OuterCtxDone]
   = Some
  \<lparr>pool =
     \<lparr>Ctx_done = True, MinWorkers = 1, MaxWorkers = 2, CurrentWorkers = 1,
        QueueSize = 2, ScaleThreshold = 50, IdleTimeout = 5000000000,
        InputChan = \<lparr>chan_buf = [1, 2, 3 :: nat], chan_cap = 0, chan_closed = False\<rparr>,
        WG = 1, Queue = \<lparr>chan_buf = [], chan_cap = 2, chan_closed = False\<rparr>\<rparr>,
     workers = [Spawned], bridge = AfterReadChan OuterCancelled, scaler = AwaitTick,
     clock = 0, invoked = []\<rparr>
  \<and> (\<exists>s'. step
  \<lparr>pool =
     \<lparr>Ctx_done = True, MinWorkers = 1, MaxWorkers = 2, CurrentWorkers = 1,
        QueueSize = 2, ScaleThreshold = 50, IdleTimeout = 5000000000,
        InputChan = \<lparr>chan_buf = [1, 2, 3 :: nat], chan_cap = 0, chan_closed = False\<rparr>,
        WG = 1, Queue = \<lparr>chan_buf = [], chan_cap = 2, chan_closed = False\<rparr>\<rparr>,
     workers = [Spawned], bridge = AfterReadChan OuterCancelled, scaler = AwaitTick,
     clock = 0, invoked = []\<rparr> (StartStep CloseQueue) = Some s' \<and> chan_closed (Queue (pool s'))
                \<and> bridge s' = InWait)"
proof -
  have r: "run (NewAutoScaleWorkerPool False 1 2 2 50 5000000000
      \<lparr> chan_buf = [1, 2, 3 :: nat], chan_cap = 0, chan_closed = False \<rparr>)
    [StopCalled, ReadChan OuterCtxDone]
   = Some
  \<lparr>pool =
     \<lparr>Ctx_done = True, MinWorkers = 1, MaxWorkers = 2, CurrentWorkers = 1,
        QueueSize = 2, ScaleThreshold = 50, IdleTimeout = 5000000000,
        InputChan = \<lparr>chan_buf = [1, 2, 3 :: nat], chan_cap = 0, chan_closed = False\<rparr>,
        WG = 1, Queue = \<lparr>chan_buf = [], chan_cap = 2, chan_closed = False\<rparr>\<rparr>,
     workers = [Spawned], bridge = AfterReadChan OuterCancelled, scaler = AwaitTick,
     clock = 0, invoked = []\<rparr>"
    by (simp add: New_simps Stop_def)
  from Queue_closed_after_readChan [OF r] r show ?thesis
    by (simp del: step.simps Start.simps)
qed

text \<open>
  C4 as stated fails: after a cancellation observed at the outer select, with the source
  not exhausted, \<^verbatim>\<open>Start\<close> closes the queue.
\<close>

theorem Queue_closed_after_cancellation:
  "run (NewAutoScaleWorkerPool False 1 2 2 50 5000000000
      \<lparr> chan_buf = [1, 2, 3 :: nat], chan_cap = 0, chan_closed = False \<rparr>)
    [StopCalled, ReadChan OuterCtxDone, StartStep CloseQueue]
   = Some
  \<lparr>pool =
     \<lparr>Ctx_done = True, MinWorkers = 1, MaxWorkers = 2, CurrentWorkers = 1,
        QueueSize = 2, ScaleThreshold = 50, IdleTimeout = 5000000000,
        InputChan =
          \<lparr>chan_buf = [1, 2, 3], chan_cap = 0, chan_closed = False\<rparr>,
        WG = 1, Queue = \<lparr>chan_buf = [], chan_cap = 2, chan_closed = True\<rparr>\<rparr>,
     workers = [Spawned], bridge = InWait, scaler = AwaitTick, clock = 0,
     invoked = []\<rparr>"
  by (simp add: New_simps Stop_def)

text \<open>
  C5 on the code. The worker resets its timer when it has received a payload, before it
  calls the work function, so the timer runs during the call. Idle timeout 5 s, two
  workers over a minimum of one: worker 0 receives a payload at 2 s, resets its timer
  and calls the work function; the work function returns at 8 s, and with no idle time
  at all the timer, due at 7 s, has fired: the timer case is enabled at once and makes
  the worker return.
\<close>

theorem idle_timer_runs_during_WorkFunc:
  "run (NewAutoScaleWorkerPool False 1 2 1 1 5000000000
      \<lparr> chan_buf = [7::nat], chan_cap = 0, chan_closed = False \<rparr>)
    [Worker 0 Begins, TimePasses 2000000000,
     StartStep TickReadLen, StartStep (TickLoadWorkers 0), StartStep TickGo, StartStep TickAddWorkers,
     ReadChan RecvData, ReadChan SendQueue,
     Worker 0 RecvPayload, Worker 0 ResetsTimer, Worker 0 CallsWorkFunc,
     TimePasses 6000000000, Worker 0 WorkFuncReturns, Worker 0 TimerFires]
   = Some
  \<lparr>pool =
     \<lparr>Ctx_done = False, MinWorkers = 1, MaxWorkers = 2, CurrentWorkers = 2,
        QueueSize = 1, ScaleThreshold = 1, IdleTimeout = 5000000000,
        InputChan = \<lparr>chan_buf = [], chan_cap = 0, chan_closed = False\<rparr>,
        WG = 2, Queue = \<lparr>chan_buf = [], chan_cap = 1, chan_closed = False\<rparr>\<rparr>,
     workers = [Returning IdleExit, Spawned], bridge = InReadChan,
     scaler = AwaitTick, clock = 8000000000, invoked = [7]\<rparr>"
  by (simp add: New_simps tick_simps set_worker_def)

text \<open>
  C6 on the code. The tick spawns the workers first and adds to the counter afterwards.
  In the first run the spawned worker 1 reads the counter before the addition: it reads
  1 while two workers exist, and stays where it would have returned on reading 2. In
  the second run \<^verbatim>\<open>Stop\<close> is called between the spawn and the addition, both workers
  return, and the counter stands at \<open>-1\<close>.
\<close>

theorem worker_spawned_before_counter_add:
  "run (NewAutoScaleWorkerPool False 1 2 1 1 5000000000
      \<lparr> chan_buf = ([] :: nat list), chan_cap = 0, chan_closed = False \<rparr>)
    [TimePasses 2000000000, StartStep TickReadLen, StartStep (TickLoadWorkers 0), StartStep TickGo,
     Worker 1 Begins, TimePasses 5000000000, Worker 1 TimerFires]
   = Some
  \<lparr>pool =
     \<lparr>Ctx_done = False, MinWorkers = 1, MaxWorkers = 2, CurrentWorkers = 1,
        QueueSize = 1, ScaleThreshold = 1, IdleTimeout = 5000000000,
        InputChan = \<lparr>chan_buf = [], chan_cap = 0, chan_closed = False\<rparr>,
        WG = 2, Queue = \<lparr>chan_buf = [], chan_cap = 1, chan_closed = False\<rparr>\<rparr>,
     workers = [Spawned, Waiting 12000000000], bridge = InReadChan,
     scaler = Spawning 1 0, clock = 7000000000, invoked = []\<rparr>
  \<and> run (NewAutoScaleWorkerPool False 1 2 1 1 5000000000
      \<lparr> chan_buf = ([] :: nat list), chan_cap = 0, chan_closed = False \<rparr>)
    [TimePasses 2000000000, StartStep TickReadLen, StartStep (TickLoadWorkers 0), StartStep TickGo,
     StopCalled, Worker 0 Begins, Worker 0 SeesCtxDone, Worker 0 RunsDeferred,
     Worker 1 Begins, Worker 1 SeesCtxDone, Worker 1 RunsDeferred]
   = Some
  \<lparr>pool =
     \<lparr>Ctx_done = True, MinWorkers = 1, MaxWorkers = 2, CurrentWorkers = - 1,
        QueueSize = 1, ScaleThreshold = 1, IdleTimeout = 5000000000,
        InputChan = \<lparr>chan_buf = [], chan_cap = 0, chan_closed = False\<rparr>,
        WG = 0, Queue = \<lparr>chan_buf = [], chan_cap = 1, chan_closed = False\<rparr>\<rparr>,
     workers = [Exited Cancelled, Exited Cancelled], bridge = InReadChan,
     scaler = Spawning 1 0, clock = 2000000000, invoked = []\<rparr>"
  by (simp add: New_simps tick_simps set_worker_def Stop_def)

text \<open>
  C7 on the code. The check of an idle worker (the load of the counter in the timer case)
  and its decrement (in the deferred function) are two steps, so two workers can both
  read a counter above \<open>MinWorkers\<close> and both return. Minimum 1, maximum 2, capacity 2,
  threshold 100 percent, a source of three items that is then closed, and no call of
  \<^verbatim>\<open>Stop\<close>. Two items fill the queue and a tick adds worker 1; each worker runs the work
  function on one item; five seconds later both timers have fired, both workers read 2,
  return and decrement: the counter stands at 0 and no worker is left. The third item
  is then relayed into the queue, \<^verbatim>\<open>readChan\<close> finds the source closed, \<^verbatim>\<open>Start\<close> closes the
  queue, and \<^verbatim>\<open>WG.Wait\<close> returns at once, the wait group being at zero. The work function
  has been invoked on two of the three items; the third stays in the closed queue, and
  the next tick, finding one item below the threshold count 2, adds no worker.
\<close>

theorem join_returns_with_item_in_queue:
  "run (NewAutoScaleWorkerPool False 1 2 2 100 5000000000
      \<lparr> chan_buf = [7, 8, 9 :: nat], chan_cap = 0, chan_closed = True \<rparr>)
    [Worker 0 Begins,
     ReadChan RecvData, ReadChan SendQueue, ReadChan RecvData, ReadChan SendQueue,
     TimePasses 2000000000,
     StartStep TickReadLen, StartStep (TickLoadWorkers 0), StartStep TickGo, StartStep TickAddWorkers,
     Worker 1 Begins,
     Worker 0 RecvPayload, Worker 0 ResetsTimer, Worker 0 CallsWorkFunc, Worker 0 WorkFuncReturns,
     Worker 1 RecvPayload, Worker 1 ResetsTimer, Worker 1 CallsWorkFunc, Worker 1 WorkFuncReturns,
     TimePasses 5000000000,
     Worker 0 TimerFires, Worker 1 TimerFires, Worker 0 RunsDeferred, Worker 1 RunsDeferred,
     ReadChan RecvData, ReadChan SendQueue, ReadChan InputClosed,
     StartStep CloseQueue, StartStep WaitReturns,
     TimePasses 2000000000, StartStep TickReadLen, StartStep (TickLoadWorkers 0)]
   = Some
  \<lparr>pool =
     \<lparr>Ctx_done = False, MinWorkers = 1, MaxWorkers = 2, CurrentWorkers = 0,
        QueueSize = 2, ScaleThreshold = 100, IdleTimeout = 5000000000,
        InputChan = \<lparr>chan_buf = [], chan_cap = 0, chan_closed = True\<rparr>,
        WG = 0, Queue = \<lparr>chan_buf = [9], chan_cap = 2, chan_closed = True\<rparr>\<rparr>,
     workers = [Exited IdleExit, Exited IdleExit], bridge = StartDone,
     scaler = AwaitTick, clock = 9000000000, invoked = [7, 8]\<rparr>
  \<and> join_returns
  \<lparr>pool =
     \<lparr>Ctx_done = False, MinWorkers = 1, MaxWorkers = 2, CurrentWorkers = 0,
        QueueSize = 2, ScaleThreshold = 100, IdleTimeout = 5000000000,
        InputChan = \<lparr>chan_buf = [], chan_cap = 0, chan_closed = True\<rparr>,
        WG = 0, Queue = \<lparr>chan_buf = [9 :: nat], chan_cap = 2, chan_closed = True\<rparr>\<rparr>,
     workers = [Exited IdleExit, Exited IdleExit], bridge = StartDone,
     scaler = AwaitTick, clock = 9000000000, invoked = [7, 8]\<rparr>"
proof -
  have "f64_round 1 = Some 1"
    using f64_round_int [of 1] by simp
  then show ?thesis
    by (simp add: New_simps set_worker_def scale_up_def additional_def potentialAdditional_def
        ratio_def maxExcess_def excess_def thresholdCount_def i32_def signed_divide_int_def
        f64_div_def f64_mul_def f64_of_int32_def int32_of_f64_def is_int32_def join_returns_def)
qed




text \<open>
  C9. The arguments are \<^verbatim>\<open>int32\<close> values and the stored queue size times the stored
  threshold is below 100. Then the threshold count is 0, and in every state the pool
  reaches with the ticker goroutine at its select, whatever the queue holds: if
  \<open>CurrentWorkers\<close> is below \<open>MaxWorkers\<close>, a tick spawns \<open>a\<close> workers, registers them with
  the wait group and adds \<open>a\<close> to the counter, where \<open>a\<close> is at least 1 and takes the
  counter to at most \<open>MaxWorkers\<close> (\<open>a\<close> is exactly 1 on an empty queue); if
  \<open>CurrentWorkers\<close> has reached \<open>MaxWorkers\<close>, the tick changes nothing.
\<close>

theorem small_threshold_always_scales:
  fixes input :: "'a chan" and s :: "'a system" and u a :: int
  assumes "is_int32 minWorkers" "is_int32 maxWorkers"
    and "max 1 queueSize * min (max scaleThreshold 1) 100 < 100"
    and "run (NewAutoScaleWorkerPool ctx minWorkers maxWorkers queueSize scaleThreshold
           idleTimeout input) acts = Some s"
    and "scaler s = AwaitTick"
  defines "a \<equiv> tick_added (pool s) (int (length (chan_buf (Queue (pool s)))))
             (CurrentWorkers (pool s)) u"
  shows "thresholdCount (pool s) = 0
    \<and> (CurrentWorkers (pool s) < MaxWorkers (pool s) \<longrightarrow>
         1 \<le> a \<and> CurrentWorkers (pool s) + a \<le> MaxWorkers (pool s)
         \<and> (chan_buf (Queue (pool s)) = [] \<longrightarrow> a = 1)
         \<and> run s (tick u (nat a)) =
             Some (s \<lparr> workers := workers s @ replicate (nat a) Spawned,
                       pool := (pool s) \<lparr> WG := WG (pool s) + a,
                                          CurrentWorkers := CurrentWorkers (pool s) + a \<rparr> \<rparr>))
    \<and> (MaxWorkers (pool s) \<le> CurrentWorkers (pool s) \<longrightarrow>
         a = 0 \<and> run s (idle_tick u) = Some s)"
proof -
  let ?s0 = "NewAutoScaleWorkerPool ctx minWorkers maxWorkers queueSize scaleThreshold
           idleTimeout input"
  let ?p = "pool s"
  let ?cur = "CurrentWorkers ?p"
  let ?len = "int (length (chan_buf (Queue ?p)))"
  define S where "S = min (max scaleThreshold 1) 100"
  define Q where "Q = max 1 queueSize"
  have S1: "1 \<le> S" by (simp add: S_def)
  have Q0: "0 \<le> Q" "queueSize \<le> Q" by (simp_all add: Q_def)
  have QS: "Q * S < 100" using assms(3) by (simp only: Q_def S_def)
  have "Q * 1 \<le> Q * S" using S1 Q0(1) by (rule mult_left_mono)
  with QS Q0(2) have qs: "queueSize < 100" by linarith
  have b: "minWorkers \<le> 2147483647" "maxWorkers \<le> 2147483647" "queueSize \<le> 2147483647"
    using assms(1,2) qs by (simp_all add: is_int32_def)
  have inv: "counter_inv s" by (rule counter_inv_reachable [OF b assms(4)])
  have ci: "config_int32 ?p" using inv by (simp add: counter_inv_def)
  have "same_config (pool ?s0) ?p" using assms(4) by (rule same_config_run)
  then have cfg: "ScaleThreshold ?p = S" "QueueSize ?p = Q"
    by (simp_all add: same_config_def New_simps S_def Q_def)
  have "0 \<le> Q * S" using Q0(1) S1 by simp
  then have pr: "0 \<le> QueueSize ?p * ScaleThreshold ?p" "QueueSize ?p * ScaleThreshold ?p < 100"
    using QS by (simp_all only: cfg)
  then have "i32 (QueueSize ?p * ScaleThreshold ?p) = QueueSize ?p * ScaleThreshold ?p"
    by (intro i32_id') simp_all
  then have tc: "thresholdCount ?p = 0"
    using pr by (simp add: thresholdCount_def signed_divide_int_def sgn_if)
  have mx: "1 \<le> MaxWorkers ?p" "MaxWorkers ?p \<le> 2147483647"
    using ci by (simp_all add: config_int32_def)
  have cur: "0 \<le> ?cur" by (rule reachable_cur [OF inv assms(5)])
  have len: "i32 ?len = ?len" "?len \<le> QueueSize ?p"
    by (rule reachable_qLen [OF inv])+
  have up: "1 \<le> a \<and> ?cur + a \<le> MaxWorkers ?p
         \<and> (chan_buf (Queue ?p) = [] \<longrightarrow> a = 1)
         \<and> run s (tick u (nat a)) =
             Some (s \<lparr> workers := workers s @ replicate (nat a) Spawned,
                       pool := ?p \<lparr> WG := WG ?p + a, CurrentWorkers := ?cur + a \<rparr> \<rparr>)"
    if c: "?cur < MaxWorkers ?p"
  proof -
    have su: "scale_up ?p (i32 ?len) ?cur"
      using tc c by (simp add: len(1) scale_up_def)
    then have a: "a = additional ?p (i32 ?len) ?cur u"
      by (simp add: a_def tick_added_def len(1))
    have ab: "1 \<le> a" "a \<le> MaxWorkers ?p - ?cur"
      unfolding a len(1)
      using additional_bounds_int32 [OF ci _ _ len(2) cur c, of u] tc by simp_all
    have e: "a = 1" if "chan_buf (Queue ?p) = []"
    proof -
      have e0: "excess ?p 0 = 0" using tc by (simp add: excess_def i32_def)
      have "maxExcess ?p = QueueSize ?p" using tc ci by (simp add: maxExcess_def i32_id' config_int32_def)
      then have m0: "maxExcess ?p \<noteq> 0" using ci by (simp add: config_int32_def)
      have "ratio ?p 0 = Some 0"
        using e0 m0 by (simp add: ratio_def f64_div_def f64_of_int32_def f64_round_def)
      then have "potentialAdditional ?p 0 ?cur u = 0"
        by (simp add: potentialAdditional_def f64_mul_def f64_round_def int32_of_f64_def is_int32_def)
      from additional_clamp(1) [OF this _ _ cur c mx(2)] c
      have "additional ?p 0 ?cur u = 1" by simp
      with that show ?thesis by (simp add: a i32_def)
    qed
    have "i32 (?cur + a) = ?cur + a"
      using ab cur mx by (intro i32_id') simp_all
    moreover have "int (nat a) = a" using ab(1) by simp
    ultimately have "run s (tick u (nat a)) =
             Some (s \<lparr> workers := workers s @ replicate (nat a) Spawned,
                       pool := ?p \<lparr> WG := WG ?p + a, CurrentWorkers := ?cur + a \<rparr> \<rparr>)"
      using run_tick [OF assms(5) su a] by simp
    with ab e show ?thesis by simp
  qed
  have dn: "a = 0 \<and> run s (idle_tick u) = Some s" if c: "MaxWorkers ?p \<le> ?cur"
  proof -
    have su: "\<not> scale_up ?p (i32 ?len) ?cur"
      using c by (simp add: scale_up_def)
    then have "a = 0" by (simp add: a_def tick_added_def len(1))
    with run_idle_tick [OF assms(5) su] show ?thesis by simp
  qed
  from tc up dn show ?thesis by blast
qed

text \<open>
  Witness for C9: capacity 10 and a threshold of 5 percent, \<open>maxWorkers = 3\<close>, an empty
  queue. In the initial state the counter is 1 and a tick adds one worker; after two
  ticks the counter is 3 and a third tick changes nothing.
\<close>

theorem small_threshold_always_scales_witness:
  "is_int32 1 \<and> is_int32 3 \<and> max 1 10 * min (max 5 1) 100 < (100::int)
   \<and> run (NewAutoScaleWorkerPool False 1 3 10 5 5000000000
        \<lparr> chan_buf = ([] :: nat list), chan_cap = 0, chan_closed = False \<rparr>) []
     = Some
  \<lparr>pool =
     \<lparr>Ctx_done = False, MinWorkers = 1, MaxWorkers = 3, CurrentWorkers = 1,
        QueueSize = 10, ScaleThreshold = 5, IdleTimeout = 5000000000,
        InputChan = \<lparr>chan_buf = [], chan_cap = 0, chan_closed = False\<rparr>,
        WG = 1, Queue = \<lparr>chan_buf = [], chan_cap = 10, chan_closed = False\<rparr>\<rparr>,
     workers = [Spawned], bridge = InReadChan, scaler = AwaitTick,
     clock = 0, invoked = []\<rparr>
   \<and> (1::int) < 3
   \<and> run
  \<lparr>pool =
     \<lparr>Ctx_done = False, MinWorkers = 1, MaxWorkers = 3, CurrentWorkers = 1,
        QueueSize = 10, ScaleThreshold = 5, IdleTimeout = 5000000000,
        InputChan = \<lparr>chan_buf = [], chan_cap = 0, chan_closed = False\<rparr>,
        WG = 1, Queue = \<lparr>chan_buf = ([] :: nat list), chan_cap = 10, chan_closed = False\<rparr>\<rparr>,
     workers = [Spawned], bridge = InReadChan, scaler = AwaitTick,
     clock = 0, invoked = []\<rparr>
      (tick 0 1)
     = Some
  \<lparr>pool =
     \<lparr>Ctx_done = False, MinWorkers = 1, MaxWorkers = 3, CurrentWorkers = 2,
        QueueSize = 10, ScaleThreshold = 5, IdleTimeout = 5000000000,
        InputChan = \<lparr>chan_buf = [], chan_cap = 0, chan_closed = False\<rparr>,
        WG = 2, Queue = \<lparr>chan_buf = [], chan_cap = 10, chan_closed = False\<rparr>\<rparr>,
     workers = [Spawned, Spawned], bridge = InReadChan, scaler = AwaitTick,
     clock = 0, invoked = []\<rparr>
   \<and> run (NewAutoScaleWorkerPool False 1 3 10 5 5000000000
        \<lparr> chan_buf = ([] :: nat list), chan_cap = 0, chan_closed = False \<rparr>)
      (tick 0 1 @ tick 0 1)
     = Some
  \<lparr>pool =
     \<lparr>Ctx_done = False, MinWorkers = 1, MaxWorkers = 3, CurrentWorkers = 3,
        QueueSize = 10, ScaleThreshold = 5, IdleTimeout = 5000000000,
        InputChan = \<lparr>chan_buf = [], chan_cap = 0, chan_closed = False\<rparr>,
        WG = 3, Queue = \<lparr>chan_buf = [], chan_cap = 10, chan_closed = False\<rparr>\<rparr>,
     workers = [Spawned, Spawned, Spawned], bridge = InReadChan, scaler = AwaitTick,
     clock = 0, invoked = []\<rparr>
   \<and> (3::int) \<le> 3
   \<and> run
  \<lparr>pool =
     \<lparr>Ctx_done = False, MinWorkers = 1, MaxWorkers = 3, CurrentWorkers = 3,
        QueueSize = 10, ScaleThreshold = 5, IdleTimeout = 5000000000,
        InputChan = \<lparr>chan_buf = [], chan_cap = 0, chan_closed = False\<rparr>,
        WG = 3, Queue = \<lparr>chan_buf = ([] :: nat list), chan_cap = 10, chan_closed = False\<rparr>\<rparr>,
     workers = [Spawned, Spawned, Spawned], bridge = InReadChan, scaler = AwaitTick,
     clock = 0, invoked = []\<rparr>
      (idle_tick 0)
     = Some
  \<lparr>pool =
     \<lparr>Ctx_done = False, MinWorkers = 1, MaxWorkers = 3, CurrentWorkers = 3,
        QueueSize = 10, ScaleThreshold = 5, IdleTimeout = 5000000000,
        InputChan = \<lparr>chan_buf = [], chan_cap = 0, chan_closed = False\<rparr>,
        WG = 3, Queue = \<lparr>chan_buf = [], chan_cap = 10, chan_closed = False\<rparr>\<rparr>,
     workers = [Spawned, Spawned, Spawned], bridge = InReadChan, scaler = AwaitTick,
     clock = 0, invoked = []\<rparr>"
proof -
  let ?n = "NewAutoScaleWorkerPool False 1 3 10 5 5000000000
        \<lparr> chan_buf = ([] :: nat list), chan_cap = 0, chan_closed = False \<rparr>"
  let ?p = "\<lambda>c. \<lparr>Ctx_done = False, MinWorkers = 1, MaxWorkers = 3, CurrentWorkers = c,
        QueueSize = 10, ScaleThreshold = 5, IdleTimeout = 5000000000,
        InputChan = \<lparr>chan_buf = [], chan_cap = 0, chan_closed = False\<rparr>,
        WG = c, Queue = \<lparr>chan_buf = ([] :: nat list), chan_cap = 10, chan_closed = False\<rparr>\<rparr>"
  let ?s = "\<lambda>c ws. \<lparr>pool = ?p c, workers = ws, bridge = InReadChan, scaler = AwaitTick,
     clock = 0, invoked = []\<rparr>"
  have h: "is_int32 1" "is_int32 3" "max 1 10 * min (max 5 1) 100 < (100::int)"
    by (simp_all add: is_int32_def)
  have r0: "run ?n [] = Some (?s 1 [Spawned])"
    by (simp add: New_simps)
  have r2: "run ?n (tick 0 1 @ tick 0 1) = Some (?s 3 [Spawned, Spawned, Spawned])"
    by (simp add: New_simps tick_simps tick_def)
  have g: "scaler (?s 1 [Spawned]) = AwaitTick"
    "scaler (?s 3 [Spawned, Spawned, Spawned]) = AwaitTick"
    by simp_all
  note t0 = small_threshold_always_scales [OF h r0 g(1), of 0]
  note t2 = small_threshold_always_scales [OF h r2 g(2), of 0]
  from t0 have a: "tick_added (?p 1) 0 1 0 = 1" by simp
  from t0 a have ru: "run (?s 1 [Spawned]) (tick 0 1) = Some (?s 2 [Spawned, Spawned])"
    by (simp del: run.simps)
  from t2 have id: "run (?s 3 [Spawned, Spawned, Spawned]) (idle_tick 0)
      = Some (?s 3 [Spawned, Spawned, Spawned])"
    by (simp del: run.simps)
  have l: "(1::int) < 3" "(3::int) \<le> 3" by simp_all
  from h r0 l ru r2 id show ?thesis by blast
qed

section \<open>Properties of SafeMap\<close>











end
